theory Spec2Isabelle
  imports Complex_Main "HOL-Library.Multiset"
begin

section \<open>The chained hash table of hashmap.h\<close>

text \<open>
  The class \<open>HashMap<K, V>\<close> keeps a vector of buckets, each bucket a vector of
  pointers to heap-allocated entries, together with the two counters and the load
  factor threshold. No entry pointer is ever stored in two places, so a bucket is
  modelled as the list of the entries it points to, and an \<open>Entry*\<close> obtained from
  the table is represented by the slot (bucket index, position) that holds it.

  \<^item> \<open>size_t\<close> is a natural number below \<open>2 ^ 64\<close>; the increments, the decrement and
    the doubling of the source wrap around, which is written out.
  \<^item> \<open>std::hash<K>\<close> is a parameter \<open>h\<close> of every operation that hashes.
  \<^item> A \<open>float\<close> or \<open>double\<close> is the rational number it denotes. Every conversion and
    every division rounds to the nearest number with 24 (\<open>float\<close>) or 53 (\<open>double\<close>)
    significant bits, ties to even, as IEEE 754 prescribes. The non-finite results
    of a division by zero are values of their own.
  \<^item> What C++ leaves undefined (remainder by zero, indexing a vector out of range,
    converting an out-of-range floating point number to \<open>size_t\<close>) is an error
    value, as are the exceptions the source throws.
\<close>

datatype error =
    InvalidArgument      \<comment> \<open>\<open>std::invalid_argument\<close> of the constructors\<close>
  | KeyNotFound          \<comment> \<open>\<open>std::out_of_range\<close> of \<open>at\<close>\<close>
  | IndexOutOfRange      \<comment> \<open>\<open>std::out_of_range\<close> of the bucket interface\<close>
  | InvalidIterator      \<comment> \<open>\<open>std::out_of_range\<close> of \<open>operator*\<close>\<close>
  | RemainderByZero      \<comment> \<open>undefined: \<open>x % 0\<close>\<close>
  | VectorOutOfBounds    \<comment> \<open>undefined: \<open>v[i]\<close> with \<open>i >= v.size()\<close>\<close>
  | CastOutOfRange       \<comment> \<open>undefined: \<open>static_cast<size_t>\<close> of a value outside \<open>size_t\<close>\<close>

datatype ('k, 'v) Entry = Entry (key: 'k) (val: 'v)

record ('k, 'v) HashMap =
  buckets :: "('k, 'v) Entry list list"
  bucket_count :: nat
  entry_count :: nat
  max_load_factor :: rat   \<comment> \<open>a \<open>float\<close>\<close>

type_synonym addr = nat

record Iterator =
  map_ptr :: "addr option"   \<comment> \<open>the \<open>HashMap*\<close>; \<open>None\<close> is \<open>nullptr\<close>\<close>
  bucket_idx :: nat
  entry_idx :: nat

definition size_t_range :: nat where
  "size_t_range = 2 ^ 64"

subsection \<open>Floating point arithmetic\<close>

text \<open>
  \<open>fround p x\<close> rounds \<open>x\<close> to \<open>p\<close> significant bits: with \<open>2 ^ e <= |x| < 2 ^ (e + 1)\<close>
  the result is the multiple of \<open>2 ^ (e - p + 1)\<close> nearest to \<open>x\<close>, the even one of two
  that are equally near. The exponent is not bounded. The table divides a \<open>size_t\<close>
  by a \<open>size_t\<close> (a quotient between \<open>2 ^ -64\<close> and \<open>2 ^ 64\<close> unless it is zero) and a
  \<open>size_t\<close> by a finite \<open>float\<close> other than zero (a quotient of magnitude between
  \<open>2 ^ -128\<close> and \<open>2 ^ 213\<close> unless it is zero), so no result leaves the range of
  normal numbers of its type.
\<close>

fun bitlen :: "nat \<Rightarrow> nat" where
  "bitlen n = (if n = 0 then 0 else Suc (bitlen (n div 2)))"

declare bitlen.simps [simp del]

definition pow2 :: "int \<Rightarrow> rat" where
  "pow2 k = (if 0 \<le> k then 2 ^ nat k else 1 / 2 ^ nat (- k))"

text \<open>The exponent \<open>e\<close> with \<open>2 ^ e <= x < 2 ^ (e + 1)\<close>, for positive \<open>x\<close>.\<close>

definition ilog2 :: "rat \<Rightarrow> int" where
  "ilog2 x = (if 1 \<le> x then int (bitlen (nat \<lfloor>x\<rfloor>)) - 1
              else - int (bitlen (nat (\<lceil>1 / x\<rceil> - 1))))"

definition round_even :: "rat \<Rightarrow> int" where
  "round_even y =
     (let n = \<lfloor>y\<rfloor>; d = y - of_int n
      in if d < 1 / 2 then n else if 1 / 2 < d then n + 1 else if even n then n else n + 1)"

definition fround :: "nat \<Rightarrow> rat \<Rightarrow> rat" where
  "fround p x =
     (if x = 0 then 0
      else let s = ilog2 \<bar>x\<bar> - int p + 1
           in sgn x * of_int (round_even (\<bar>x\<bar> / pow2 s)) * pow2 s)"

definition to_double :: "rat \<Rightarrow> rat" where
  "to_double = fround 53"

definition to_float :: "rat \<Rightarrow> rat" where
  "to_float = fround 24"

text \<open>
  \<open>static_cast<double>(n) / d\<close> for a \<open>size_t n\<close> and a \<open>double d\<close>: the conversion
  rounds, and so does the division.
\<close>

definition double_quotient :: "nat \<Rightarrow> rat \<Rightarrow> rat" where
  "double_quotient n d = to_double (to_double (of_nat n) / d)"

text \<open>The result of the floating point division in \<open>load_factor\<close>.\<close>

datatype fp = Finite rat | PosInf | NaN

fun fp_gt :: "fp \<Rightarrow> rat \<Rightarrow> bool" where
  "fp_gt (Finite x) y = (y < x)"
| "fp_gt PosInf y = True"
| "fp_gt NaN y = False"

subsection \<open>Constructors\<close>

definition HashMap_default :: "('k, 'v) HashMap" where
  "HashMap_default =
     \<lparr>buckets = replicate 32 [], bucket_count = 32, entry_count = 0, max_load_factor = 3 / 4\<rparr>"

definition HashMap_cap :: "nat \<Rightarrow> error + ('k, 'v) HashMap" where
  "HashMap_cap cap =
     (if cap = 0 then Inl InvalidArgument
      else Inr \<lparr>buckets = replicate cap [], bucket_count = cap, entry_count = 0,
                max_load_factor = 3 / 4\<rparr>)"

definition HashMap_cap_mlf :: "nat \<Rightarrow> rat \<Rightarrow> error + ('k, 'v) HashMap" where
  "HashMap_cap_mlf cap mlf =
     (if cap = 0 then Inl InvalidArgument
      else if mlf \<le> 0 then Inl InvalidArgument
      else Inr \<lparr>buckets = replicate cap [], bucket_count = cap, entry_count = 0,
                max_load_factor = mlf\<rparr>)"

text \<open>
  The copy constructor initialises \<open>bucket_count\<close>, \<open>buckets\<close> and \<open>entry_count\<close> and
  copies the entries bucket by bucket, reading \<open>other.buckets[i]\<close> for every
  \<open>i < other.bucket_count\<close>; \<open>max_load_factor\<close> is not in its initialiser list and
  takes the default member initialiser \<open>0.75f\<close>.
\<close>

fun copy_buckets :: "('k, 'v) Entry list list \<Rightarrow> nat \<Rightarrow> nat \<Rightarrow> error + ('k, 'v) Entry list list" where
  "copy_buckets src i 0 = Inr []"
| "copy_buckets src i (Suc n) =
     (if i < length src then
        (case copy_buckets src (Suc i) n of
           Inl er \<Rightarrow> Inl er
         | Inr bs \<Rightarrow> Inr ((src ! i) # bs))
      else Inl VectorOutOfBounds)"

definition HashMap_copy :: "('k, 'v) HashMap \<Rightarrow> error + ('k, 'v) HashMap" where
  "HashMap_copy other =
     (case copy_buckets (buckets other) 0 (bucket_count other) of
        Inl er \<Rightarrow> Inl er
      | Inr bs \<Rightarrow> Inr \<lparr>buckets = bs, bucket_count = bucket_count other,
                       entry_count = entry_count other, max_load_factor = 3 / 4\<rparr>)"

text \<open>\<open>clear\<close> empties every bucket and keeps the bucket array.\<close>

definition clear :: "('k, 'v) HashMap \<Rightarrow> ('k, 'v) HashMap" where
  "clear t = t\<lparr>buckets := map (\<lambda>b. []) (buckets t), entry_count := 0\<rparr>"

text \<open>
  Copy assignment. \<open>self\<close> says that \<open>this == &other\<close>. The assignment clears the
  target, takes over the two counters, rebuilds the buckets and never writes
  \<open>max_load_factor\<close>.
\<close>

definition copy_assign :: "bool \<Rightarrow> ('k, 'v) HashMap \<Rightarrow> ('k, 'v) HashMap \<Rightarrow> error + ('k, 'v) HashMap" where
  "copy_assign self this other =
     (if self then Inr this
      else (case copy_buckets (buckets other) 0 (bucket_count other) of
              Inl er \<Rightarrow> Inl er
            | Inr bs \<Rightarrow> Inr ((clear this)\<lparr>buckets := bs, bucket_count := bucket_count other,
                                          entry_count := entry_count other\<rparr>)))"

subsection \<open>Helper functions\<close>

definition hash_func :: "('k \<Rightarrow> nat) \<Rightarrow> ('k, 'v) HashMap \<Rightarrow> 'k \<Rightarrow> error + nat" where
  "hash_func h t k =
     (if bucket_count t = 0 then Inl RemainderByZero else Inr (h k mod bucket_count t))"

definition bucket_at :: "('k, 'v) HashMap \<Rightarrow> nat \<Rightarrow> error + ('k, 'v) Entry list" where
  "bucket_at t i = (if i < length (buckets t) then Inr (buckets t ! i) else Inl VectorOutOfBounds)"

text \<open>
  The scan of one bucket for a key, shared by \<open>find_entry\<close>, \<open>find\<close> and
  \<open>erase(const K&)\<close>: the position of the first entry with that key.
\<close>

fun find_pos :: "('k, 'v) Entry list \<Rightarrow> 'k \<Rightarrow> nat option" where
  "find_pos [] k = None"
| "find_pos (e # es) k = (if key e = k then Some 0 else map_option Suc (find_pos es k))"

definition find_entry :: "('k \<Rightarrow> nat) \<Rightarrow> ('k, 'v) HashMap \<Rightarrow> 'k \<Rightarrow> error + (nat \<times> nat) option" where
  "find_entry h t k =
     (case hash_func h t k of
        Inl er \<Rightarrow> Inl er
      | Inr index \<Rightarrow>
          (case bucket_at t index of
             Inl er \<Rightarrow> Inl er
           | Inr b \<Rightarrow> Inr (map_option (\<lambda>i. (index, i)) (find_pos b k))))"

subsection \<open>Hash policy\<close>

text \<open>
  \<open>load_factor\<close> returns \<open>static_cast<double>(entry_count) / bucket_count\<close> as a
  \<open>float\<close>: \<open>bucket_count\<close> is converted to \<open>double\<close> for the division, and the
  \<open>double\<close> quotient is narrowed to \<open>float\<close> by the return.
\<close>

definition load_factor :: "('k, 'v) HashMap \<Rightarrow> fp" where
  "load_factor t =
     (if bucket_count t = 0 then (if entry_count t = 0 then NaN else PosInf)
      else Finite (to_float (double_quotient (entry_count t) (to_double (of_nat (bucket_count t))))))"

text \<open>
  \<open>min_required\<close> of \<open>rehash\<close>: the \<open>double\<close> quotient
  \<open>static_cast<double>(entry_count) / max_load_factor\<close>, rounded up by \<open>std::ceil\<close> and
  converted to \<open>size_t\<close>. The \<open>float\<close> threshold is a \<open>double\<close> as it is. A zero
  threshold makes the quotient infinite or not a number; a value in \<open>(-1, 0]\<close>
  rounds up to zero.
\<close>

definition min_required :: "('k, 'v) HashMap \<Rightarrow> error + nat" where
  "min_required t =
     (if max_load_factor t = 0 then Inl CastOutOfRange
      else let x = \<lceil>double_quotient (entry_count t) (max_load_factor t)\<rceil>
           in if 0 \<le> x \<and> x < int size_t_range then Inr (nat x) else Inl CastOutOfRange)"

text \<open>The two nested loops of \<open>rehash\<close> that move every entry into its new bucket.\<close>

fun refile_bucket :: "('k \<Rightarrow> nat) \<Rightarrow> ('k, 'v) HashMap \<Rightarrow> ('k, 'v) Entry list \<Rightarrow> error + ('k, 'v) HashMap" where
  "refile_bucket h t [] = Inr t"
| "refile_bucket h t (e # es) =
     (case hash_func h t (key e) of
        Inl er \<Rightarrow> Inl er
      | Inr index \<Rightarrow>
          (if index < length (buckets t)
           then refile_bucket h (t\<lparr>buckets := (buckets t)[index := buckets t ! index @ [e]]\<rparr>) es
           else Inl VectorOutOfBounds))"

fun refile_all :: "('k \<Rightarrow> nat) \<Rightarrow> ('k, 'v) HashMap \<Rightarrow> ('k, 'v) Entry list list \<Rightarrow> error + ('k, 'v) HashMap" where
  "refile_all h t [] = Inr t"
| "refile_all h t (b # bs) =
     (case refile_bucket h t b of
        Inl er \<Rightarrow> Inl er
      | Inr t' \<Rightarrow> refile_all h t' bs)"

definition rehash :: "('k \<Rightarrow> nat) \<Rightarrow> ('k, 'v) HashMap \<Rightarrow> nat \<Rightarrow> error + ('k, 'v) HashMap" where
  "rehash h t cnt =
     (case min_required t of
        Inl er \<Rightarrow> Inl er
      | Inr mr \<Rightarrow>
          (let new_bucket_count = (if cnt < mr then mr else cnt)
           in if new_bucket_count = bucket_count t then Inr t
              else refile_all h
                     (t\<lparr>buckets := replicate new_bucket_count [], bucket_count := new_bucket_count\<rparr>)
                     (buckets t)))"

definition set_max_load_factor :: "('k \<Rightarrow> nat) \<Rightarrow> ('k, 'v) HashMap \<Rightarrow> rat \<Rightarrow> error + ('k, 'v) HashMap" where
  "set_max_load_factor h t ml =
     (let t1 = t\<lparr>max_load_factor := ml\<rparr>
      in if fp_gt (load_factor t1) (max_load_factor t1)
         then rehash h t1 ((bucket_count t1 * 2) mod size_t_range)
         else Inr t1)"

subsection \<open>Modifiers and lookup\<close>

definition insert_hm :: "('k \<Rightarrow> nat) \<Rightarrow> ('k, 'v) HashMap \<Rightarrow> 'k \<Rightarrow> 'v \<Rightarrow> error + ('k, 'v) HashMap" where
  "insert_hm h t k v =
     (case find_entry h t k of
        Inl er \<Rightarrow> Inl er
      | Inr (Some (b, i)) \<Rightarrow>
          Inr (t\<lparr>buckets := (buckets t)[b := (buckets t ! b)[i := Entry (key (buckets t ! b ! i)) v]]\<rparr>)
      | Inr None \<Rightarrow>
          (case hash_func h t k of
             Inl er \<Rightarrow> Inl er
           | Inr index \<Rightarrow>
               (if index < length (buckets t) then
                  (let t1 = t\<lparr>buckets := (buckets t)[index := buckets t ! index @ [Entry k v]],
                               entry_count := (entry_count t + 1) mod size_t_range\<rparr>
                   in if fp_gt (load_factor t1) (max_load_factor t1)
                      then rehash h t1 ((bucket_count t1 * 2) mod size_t_range)
                      else Inr t1)
                else Inl VectorOutOfBounds)))"

text \<open>
  The constant-time removal of \<open>erase\<close>: the last entry of the bucket is copied over
  position \<open>i\<close> unless \<open>i\<close> is the last position, and the last slot is popped.
\<close>

definition swap_remove :: "'a list \<Rightarrow> nat \<Rightarrow> 'a list" where
  "swap_remove b i = butlast (if i + 1 \<noteq> length b then b[i := last b] else b)"

definition erase :: "('k \<Rightarrow> nat) \<Rightarrow> ('k, 'v) HashMap \<Rightarrow> 'k \<Rightarrow> error + (('k, 'v) HashMap \<times> nat)" where
  "erase h t k =
     (case hash_func h t k of
        Inl er \<Rightarrow> Inl er
      | Inr index \<Rightarrow>
          (case bucket_at t index of
             Inl er \<Rightarrow> Inl er
           | Inr b \<Rightarrow>
               (case find_pos b k of
                  None \<Rightarrow> Inr (t, 0)
                | Some i \<Rightarrow>
                    Inr (t\<lparr>buckets := (buckets t)[index := swap_remove b i],
                            entry_count := (entry_count t + size_t_range - 1) mod size_t_range\<rparr>, 1))))"

definition at_hm :: "('k \<Rightarrow> nat) \<Rightarrow> ('k, 'v) HashMap \<Rightarrow> 'k \<Rightarrow> error + 'v" where
  "at_hm h t k =
     (case find_entry h t k of
        Inl er \<Rightarrow> Inl er
      | Inr None \<Rightarrow> Inl KeyNotFound
      | Inr (Some (b, i)) \<Rightarrow> Inr (val (buckets t ! b ! i)))"

definition contains :: "('k \<Rightarrow> nat) \<Rightarrow> ('k, 'v) HashMap \<Rightarrow> 'k \<Rightarrow> error + bool" where
  "contains h t k =
     (case find_entry h t k of
        Inl er \<Rightarrow> Inl er
      | Inr None \<Rightarrow> Inr False
      | Inr (Some p) \<Rightarrow> Inr True)"

subsection \<open>Iterators\<close>

definition end_it :: "addr \<Rightarrow> ('k, 'v) HashMap \<Rightarrow> Iterator" where
  "end_it this t = \<lparr>map_ptr = Some this, bucket_idx = bucket_count t, entry_idx = 0\<rparr>"

text \<open>
  The loop \<open>while (i < bucket_count && buckets[i].empty()) i++\<close> of \<open>operator++\<close> and
  of \<open>erase(Iterator)\<close>; the loop of \<open>begin()\<close> is the same search started at 0.
\<close>

function skip_empty :: "('k, 'v) HashMap \<Rightarrow> nat \<Rightarrow> error + nat" where
  "skip_empty t i =
     (if i < bucket_count t then
        (if i < length (buckets t) then
           (if buckets t ! i = [] then skip_empty t (Suc i) else Inr i)
         else Inl VectorOutOfBounds)
      else Inr i)"
  by pat_completeness auto
termination
  by (relation "measure (\<lambda>(t, i). bucket_count t - i)") auto

declare skip_empty.simps [simp del]

definition begin_it :: "addr \<Rightarrow> ('k, 'v) HashMap \<Rightarrow> error + Iterator" where
  "begin_it this t =
     (case skip_empty t 0 of
        Inl er \<Rightarrow> Inl er
      | Inr i \<Rightarrow>
          if i < bucket_count t then Inr \<lparr>map_ptr = Some this, bucket_idx = i, entry_idx = 0\<rparr>
          else Inr (end_it this t))"

text \<open>\<open>operator++\<close>; \<open>t\<close> is the table \<open>map\<close> points to when it is not null.\<close>

definition incr :: "('k, 'v) HashMap \<Rightarrow> Iterator \<Rightarrow> error + Iterator" where
  "incr t it =
     (if map_ptr it = None \<or> bucket_idx it \<ge> bucket_count t then Inr it
      else (case bucket_at t (bucket_idx it) of
              Inl er \<Rightarrow> Inl er
            | Inr b \<Rightarrow>
                (let e = (entry_idx it + 1) mod size_t_range
                 in if e < length b then Inr (it\<lparr>entry_idx := e\<rparr>)
                    else (case skip_empty t (bucket_idx it + 1) of
                            Inl er \<Rightarrow> Inl er
                          | Inr nb \<Rightarrow> Inr (it\<lparr>bucket_idx := nb, entry_idx := 0\<rparr>)))))"

text \<open>\<open>operator*\<close>.\<close>

definition deref :: "('k, 'v) HashMap \<Rightarrow> Iterator \<Rightarrow> error + ('k, 'v) Entry" where
  "deref t it =
     (if map_ptr it = None \<or> bucket_idx it \<ge> bucket_count t then Inl InvalidIterator
      else (case bucket_at t (bucket_idx it) of
              Inl er \<Rightarrow> Inl er
            | Inr b \<Rightarrow> if entry_idx it \<ge> length b then Inl InvalidIterator
                       else Inr (b ! entry_idx it)))"

definition find_hm :: "addr \<Rightarrow> ('k \<Rightarrow> nat) \<Rightarrow> ('k, 'v) HashMap \<Rightarrow> 'k \<Rightarrow> error + Iterator" where
  "find_hm this h t k =
     (case hash_func h t k of
        Inl er \<Rightarrow> Inl er
      | Inr index \<Rightarrow>
          (case bucket_at t index of
             Inl er \<Rightarrow> Inl er
           | Inr b \<Rightarrow>
               (case find_pos b k of
                  Some i \<Rightarrow> Inr \<lparr>map_ptr = Some this, bucket_idx = index, entry_idx = i\<rparr>
                | None \<Rightarrow> Inr (end_it this t))))"

definition erase_it :: "addr \<Rightarrow> ('k, 'v) HashMap \<Rightarrow> Iterator \<Rightarrow> error + (('k, 'v) HashMap \<times> Iterator)" where
  "erase_it this t pos =
     (if map_ptr pos \<noteq> Some this then Inr (t, end_it this t)
      else if bucket_idx pos \<ge> bucket_count t then Inr (t, end_it this t)
      else (case bucket_at t (bucket_idx pos) of
              Inl er \<Rightarrow> Inl er
            | Inr b \<Rightarrow>
                (let i = entry_idx pos
                 in if i \<ge> length b then Inr (t, end_it this t)
                    else
                      (let b' = swap_remove b i;
                           t' = t\<lparr>buckets := (buckets t)[bucket_idx pos := b'],
                                  entry_count := (entry_count t + size_t_range - 1) mod size_t_range\<rparr>
                       in if i < length b'
                          then Inr (t', \<lparr>map_ptr = Some this, bucket_idx = bucket_idx pos, entry_idx = i\<rparr>)
                          else (case skip_empty t' ((bucket_idx pos + 1) mod size_t_range) of
                                  Inl er \<Rightarrow> Inl er
                                | Inr nb \<Rightarrow>
                                    if nb < bucket_count t'
                                    then Inr (t', \<lparr>map_ptr = Some this, bucket_idx = nb, entry_idx = 0\<rparr>)
                                    else Inr (t', end_it this t'))))))"

subsection \<open>Bucket interface\<close>

definition begin_bucket :: "addr \<Rightarrow> ('k, 'v) HashMap \<Rightarrow> nat \<Rightarrow> error + Iterator" where
  "begin_bucket this t n =
     (if n \<ge> bucket_count t then Inl IndexOutOfRange
      else (case bucket_at t n of
              Inl er \<Rightarrow> Inl er
            | Inr b \<Rightarrow> if b = [] then Inr (end_it this t)
                       else Inr \<lparr>map_ptr = Some this, bucket_idx = n, entry_idx = 0\<rparr>))"

definition end_bucket :: "addr \<Rightarrow> ('k, 'v) HashMap \<Rightarrow> nat \<Rightarrow> error + Iterator" where
  "end_bucket this t n =
     (if n \<ge> bucket_count t then Inl IndexOutOfRange
      else (case bucket_at t n of
              Inl er \<Rightarrow> Inl er
            | Inr b \<Rightarrow> Inr \<lparr>map_ptr = Some this, bucket_idx = n, entry_idx = length b\<rparr>))"

subsection \<open>Representation invariant and abstraction\<close>

text \<open>
  \<open>entries\<close> lists the entries in the order of a full traversal (bucket by bucket).
  \<open>well_formed\<close> is the state every constructor establishes: the bucket array has
  \<open>bucket_count\<close> buckets, there is at least one, both counters are values of
  \<open>size_t\<close>, \<open>entry_count\<close> counts the entries, every entry sits in the bucket its
  key hashes to, and no key occurs twice.
  \<open>lookup\<close> is the finite map the table stands for.
\<close>

definition entries :: "('k, 'v) HashMap \<Rightarrow> ('k, 'v) Entry list" where
  "entries t = concat (buckets t)"

definition well_formed :: "('k \<Rightarrow> nat) \<Rightarrow> ('k, 'v) HashMap \<Rightarrow> bool" where
  "well_formed h t \<longleftrightarrow>
     length (buckets t) = bucket_count t \<and> 0 < bucket_count t \<and>
     bucket_count t < size_t_range \<and> entry_count t < size_t_range \<and>
     entry_count t = length (entries t) \<and>
     (\<forall>(i, b) \<in> set (enumerate 0 (buckets t)). \<forall>e \<in> set b. h (key e) mod bucket_count t = i) \<and>
     distinct (map key (entries t))"

definition lookup :: "('k, 'v) HashMap \<Rightarrow> 'k \<Rightarrow> 'v option" where
  "lookup t = map_of (map (\<lambda>e. (key e, val e)) (entries t))"

text \<open>A hash function for \<open>nat\<close> keys (the identity) and a small table, used in examples.\<close>

definition nat_hash :: "nat \<Rightarrow> nat" where
  "nat_hash n = n"

definition sample :: "(nat, nat) HashMap" where
  "sample = \<lparr>buckets = [[Entry 4 40], [Entry 1 10, Entry 5 50], [], []],
              bucket_count = 4, entry_count = 3, max_load_factor = 3 / 4\<rparr>"

subsection \<open>Sequences of calls\<close>

text \<open>
  A client that calls \<open>insert\<close> and \<open>set_max_load_factor\<close> one after the other on the
  same table; the run stops at the first call that fails.
\<close>

datatype ('k, 'v) operation = Insert 'k 'v | SetMaxLoadFactor rat

fun apply_op :: "('k \<Rightarrow> nat) \<Rightarrow> ('k, 'v) HashMap \<Rightarrow> ('k, 'v) operation \<Rightarrow> error + ('k, 'v) HashMap" where
  "apply_op h t (Insert k v) = insert_hm h t k v"
| "apply_op h t (SetMaxLoadFactor ml) = set_max_load_factor h t ml"

fun run_ops :: "('k \<Rightarrow> nat) \<Rightarrow> ('k, 'v) HashMap \<Rightarrow> ('k, 'v) operation list \<Rightarrow> error + ('k, 'v) HashMap" where
  "run_ops h t [] = Inr t"
| "run_ops h t (x # xs) =
     (case apply_op h t x of
        Inl er \<Rightarrow> Inl er
      | Inr t' \<Rightarrow> run_ops h t' xs)"

text \<open>
  What a sequence of calls asks for: the map the table has to stand for after it,
  and the threshold it has to have.
\<close>

fun stored_after :: "('k \<Rightarrow> 'v option) \<Rightarrow> ('k, 'v) operation list \<Rightarrow> ('k \<Rightarrow> 'v option)" where
  "stored_after m [] = m"
| "stored_after m (Insert k v # xs) = stored_after (m(k \<mapsto> v)) xs"
| "stored_after m (SetMaxLoadFactor ml # xs) = stored_after m xs"

fun threshold_after :: "rat \<Rightarrow> ('k, 'v) operation list \<Rightarrow> rat" where
  "threshold_after ml [] = ml"
| "threshold_after ml (Insert k v # xs) = threshold_after ml xs"
| "threshold_after ml (SetMaxLoadFactor ml' # xs) = threshold_after ml' xs"

text \<open>
  The load factor invariant with the exact quotient, as opposed to the test
  \<open>load_factor() > max_load_factor\<close> of the source, which compares two \<open>float\<close>s.
\<close>

definition exact_load_ok :: "('k, 'v) HashMap \<Rightarrow> bool" where
  "exact_load_ok t \<longleftrightarrow> of_nat (entry_count t) / of_nat (bucket_count t) \<le> max_load_factor t"

text \<open>The test of \<open>insert\<close> and \<open>set_max_load_factor\<close> that triggers growth.\<close>

definition over_threshold :: "('k, 'v) HashMap \<Rightarrow> bool" where
  "over_threshold t \<longleftrightarrow> fp_gt (load_factor t) (max_load_factor t)"

text \<open>
  Tables for examples. \<open>HashMap(10, 0.7f)\<close>: the \<open>float\<close> nearest to \<open>0.7\<close> is
  \<open>11744051 / 2 ^ 24\<close>. \<open>HashMap(1, f)\<close> with \<open>f = 2 ^ -70\<close>. \<open>HashMap(1, f)\<close> with
  \<open>f = 14971449 / 2 ^ 54\<close>, which is a \<open>float\<close>, before and after its first entry is
  appended. \<open>HashMap(1, 2.0f)\<close> after two inserts, and the copy the copy
  constructor makes of it.
\<close>

definition float07_table :: "(nat, nat) HashMap" where
  "float07_table = \<lparr>buckets = replicate 10 [], bucket_count = 10, entry_count = 0,
                     max_load_factor = 11744051 / 16777216\<rparr>"

definition seven_inserts :: "(nat, nat) operation list" where
  "seven_inserts = [Insert 0 0, Insert 1 10, Insert 2 20, Insert 3 30, Insert 4 40,
                    Insert 5 50, Insert 6 60]"

definition tiny_table :: "(nat, nat) HashMap" where
  "tiny_table = \<lparr>buckets = [[]], bucket_count = 1, entry_count = 0,
                  max_load_factor = 1 / 2 ^ 70\<rparr>"


definition dense_table :: "(nat, nat) HashMap" where
  "dense_table = \<lparr>buckets = [[Entry 0 0, Entry 1 10]], bucket_count = 1, entry_count = 2,
                   max_load_factor = 2\<rparr>"

definition dense_copy :: "(nat, nat) HashMap" where
  "dense_copy = \<lparr>buckets = [[Entry 0 0, Entry 1 10]], bucket_count = 1, entry_count = 2,
                  max_load_factor = 3 / 4\<rparr>"


text \<open>A table with string keys that holds exactly \<open>"a" -> 1\<close> and \<open>"b" -> 2\<close>, in one bucket.\<close>

definition ab_table :: "(string, int) HashMap" where
  "ab_table = \<lparr>buckets = [[Entry ''a'' 1, Entry ''b'' 2]],
                bucket_count = 1, entry_count = 2, max_load_factor = 2\<rparr>"

text \<open>A client that applies \<open>operator++\<close> \<open>n\<close> times to a cursor of the table \<open>t\<close>.\<close>

fun incr_times :: "('k, 'v) HashMap \<Rightarrow> nat \<Rightarrow> Iterator \<Rightarrow> error + Iterator" where
  "incr_times t 0 it = Inr it"
| "incr_times t (Suc n) it =
     (case incr t it of
        Inl er \<Rightarrow> Inl er
      | Inr it' \<Rightarrow> incr_times t n it')"

section \<open>Powers of two\<close>

lemma pow2_powi: "pow2 k = 2 powi k"
  by (simp add: pow2_def power_int_def power_inverse inverse_eq_divide power_divide)

lemma pow2_pos [simp]: "0 < pow2 k"
  by (simp add: pow2_powi)

lemma pow2_nonneg [simp]: "0 \<le> pow2 k"
  by (simp add: pow2_powi)

lemma pow2_ne0 [simp]: "pow2 k \<noteq> 0"
  by (simp add: pow2_powi)

lemma pow2_add: "pow2 (a + b) = pow2 a * pow2 b"
  by (simp add: pow2_powi power_int_add)

lemma pow2_diff: "pow2 (a - b) = pow2 a / pow2 b"
  by (simp add: pow2_powi power_int_diff)

lemma pow2_int [simp]: "pow2 (int n) = 2 ^ n"
  by (simp add: pow2_powi)

lemma pow2_0 [simp]: "pow2 0 = 1"
  by (simp add: pow2_powi)

lemma pow2_less: "a < b \<Longrightarrow> pow2 a < pow2 b"
  by (simp add: pow2_powi power_int_strict_increasing)

lemma pow2_le: "a \<le> b \<Longrightarrow> pow2 a \<le> pow2 b"
  by (simp add: pow2_powi power_int_increasing)

lemma pow2_less_iff: "pow2 a < pow2 b \<longleftrightarrow> a < b"
  using pow2_less[of a b] pow2_le[of b a] by (auto simp: not_less[symmetric])

lemma pow2_succ: "pow2 (k + 1) = 2 * pow2 k"
  by (simp add: pow2_powi power_int_add)

lemma pow2_scale: "2 ^ n * pow2 s = pow2 (int n + s)"
  by (simp add: pow2_add)

lemma pow2_scale_int: "of_int (2 ^ n) * pow2 s = pow2 (int n + s)"
  by (simp add: pow2_add)

section \<open>Binary logarithm\<close>

lemma bitlen_upper: "n < 2 ^ bitlen n"
proof (induction n rule: bitlen.induct)
  case (1 n)
  show ?case
  proof (cases "n = 0")
    case True
    then show ?thesis by (simp add: bitlen.simps[of 0])
  next
    case False
    from 1[OF False] have "n div 2 < 2 ^ bitlen (n div 2)" .
    then have "n < 2 * 2 ^ bitlen (n div 2)" by linarith
    with False show ?thesis by (simp add: bitlen.simps[of n])
  qed
qed

lemma bitlen_pos: "0 < n \<Longrightarrow> 0 < bitlen n"
  by (simp add: bitlen.simps[of n])

lemma bitlen_lower: "0 < n \<Longrightarrow> 2 ^ (bitlen n - 1) \<le> n"
proof (induction n rule: bitlen.induct)
  case (1 n)
  then have n: "n \<noteq> 0" by simp
  have b: "bitlen n - 1 = bitlen (n div 2)" using n by (simp add: bitlen.simps[of n])
  show ?case
  proof (cases "n div 2 = 0")
    case True
    with 1(2) show ?thesis unfolding b by (simp add: bitlen.simps[of 0])
  next
    case False
    then have p: "0 < n div 2" by simp
    from 1(1)[OF n p] have "2 ^ (bitlen (n div 2) - 1) \<le> n div 2" .
    moreover have "(2::nat) ^ bitlen (n div 2) = 2 * 2 ^ (bitlen (n div 2) - 1)"
      using bitlen_pos[OF p] by (cases "bitlen (n div 2)") simp_all
    ultimately have "2 ^ bitlen (n div 2) \<le> n" by linarith
    then show ?thesis unfolding b .
  qed
qed

lemma ilog2_lower:
  assumes "0 < x"
  shows "pow2 (ilog2 x) \<le> x"
proof (cases "1 \<le> x")
  case True
  define N where "N = nat \<lfloor>x\<rfloor>"
  from True have f: "1 \<le> \<lfloor>x\<rfloor>" by simp
  then have N: "0 < N" and Nx: "of_nat N \<le> x" unfolding N_def by (simp_all add: of_nat_nat)
  have "ilog2 x = int (bitlen N - 1)" using True bitlen_pos[OF N] by (simp add: ilog2_def N_def)
  then have "pow2 (ilog2 x) = of_nat (2 ^ (bitlen N - 1))" by simp
  also have "\<dots> \<le> of_nat N" using bitlen_lower[OF N] by (simp only: of_nat_le_iff)
  finally show ?thesis using Nx by simp
next
  case False
  define c where "c = \<lceil>1 / x\<rceil>"
  define M where "M = nat (c - 1)"
  define k where "k = bitlen M"
  from False assms have y1: "1 < 1 / x" by simp
  have yc: "1 / x \<le> of_int c" unfolding c_def by (rule le_of_int_ceiling)
  with y1 have "(1::rat) < of_int c" by linarith
  then have c2: "2 \<le> c" by simp
  then have M: "0 < M" and Mc: "int M = c - 1" unfolding M_def by simp_all
  have "int (M + 1) = c" using Mc by simp
  moreover have "M + 1 \<le> 2 ^ k" using bitlen_upper[of M] by (simp add: k_def)
  then have "int (M + 1) \<le> 2 ^ k" by (metis of_nat_le_iff of_nat_numeral of_nat_power)
  ultimately have "c \<le> 2 ^ k" by simp
  then have "(of_int c :: rat) \<le> 2 ^ k" by (metis of_int_le_iff of_int_numeral of_int_power)
  with yc have "1 / x \<le> 2 ^ k" by linarith
  with assms have "1 / 2 ^ k \<le> x" by (simp add: field_simps)
  moreover have "ilog2 x = - int k" using False by (simp add: ilog2_def k_def M_def c_def)
  moreover have "0 < k" unfolding k_def by (rule bitlen_pos[OF M])
  ultimately show ?thesis by (simp add: pow2_def)
qed

lemma ilog2_upper:
  assumes "0 < x"
  shows "x < pow2 (ilog2 x + 1)"
proof (cases "1 \<le> x")
  case True
  define N where "N = nat \<lfloor>x\<rfloor>"
  from True have f: "1 \<le> \<lfloor>x\<rfloor>" by simp
  then have N: "0 < N" and Nx: "of_int \<lfloor>x\<rfloor> = (of_nat N :: rat)" unfolding N_def by simp_all
  have "ilog2 x + 1 = int (bitlen N)" using True by (simp add: ilog2_def N_def)
  then have p: "pow2 (ilog2 x + 1) = of_nat (2 ^ bitlen N)" by simp
  have "x < of_int \<lfloor>x\<rfloor> + 1" by linarith
  also have "\<dots> = of_nat (N + 1)" using Nx by simp
  also have "\<dots> \<le> of_nat (2 ^ bitlen N)"
    using bitlen_upper[of N] by (simp only: of_nat_le_iff)
  finally show ?thesis using p by simp
next
  case False
  define c where "c = \<lceil>1 / x\<rceil>"
  define M where "M = nat (c - 1)"
  define k where "k = bitlen M"
  from False assms have y1: "1 < 1 / x" by simp
  have yc: "1 / x \<le> of_int c" unfolding c_def by (rule le_of_int_ceiling)
  with y1 have "(1::rat) < of_int c" by linarith
  then have c2: "2 \<le> c" by simp
  then have M: "0 < M" and Mc: "int M = c - 1" unfolding M_def by simp_all
  have kp: "0 < k" unfolding k_def by (rule bitlen_pos[OF M])
  have "of_int c - 1 < 1 / x" unfolding c_def by linarith
  moreover have "(of_nat M :: rat) = of_int c - 1" using Mc by (metis of_int_of_nat_eq of_int_diff of_int_1)
  ultimately have Mx: "of_nat M < 1 / x" by simp
  have "(of_nat (2 ^ (k - 1)) :: rat) \<le> of_nat M"
    using bitlen_lower[OF M] by (simp only: of_nat_le_iff k_def)
  then have "(2::rat) ^ (k - 1) \<le> of_nat M" by (simp only: of_nat_power of_nat_numeral)
  with Mx have "2 ^ (k - 1) < 1 / x" by linarith
  with assms have "x < 1 / 2 ^ (k - 1)" by (simp add: field_simps)
  moreover have "ilog2 x + 1 = - int (k - 1)" using False kp by (simp add: ilog2_def k_def M_def c_def)
  moreover have "pow2 (- int (k - 1)) = 1 / 2 ^ (k - 1)"
    by (cases "k - 1 = 0") (simp_all add: pow2_def)
  ultimately show ?thesis by simp
qed

lemma ilog2_unique:
  assumes "pow2 e \<le> x" and "x < pow2 (e + 1)"
  shows "ilog2 x = e"
proof -
  have x: "0 < x" using assms(1) pow2_pos[of e] by linarith
  from ilog2_lower[OF x] assms(2) have "pow2 (ilog2 x) < pow2 (e + 1)" by linarith
  then have "ilog2 x < e + 1" by (simp only: pow2_less_iff)
  moreover from ilog2_upper[OF x] assms(1) have "pow2 e < pow2 (ilog2 x + 1)" by linarith
  then have "e < ilog2 x + 1" by (simp only: pow2_less_iff)
  ultimately show ?thesis by simp
qed

section \<open>Rounding to the nearest integer, ties to even\<close>

lemma round_even_near:
  assumes "\<bar>y - of_int m\<bar> < 1 / 2"
  shows "round_even y = m"
proof (cases "of_int m \<le> y")
  case True
  with assms have "y < of_int m + 1 / 2" by linarith
  with True have "\<lfloor>y\<rfloor> = m" by (simp add: floor_unique)
  with assms True show ?thesis by (simp add: round_even_def Let_def)
next
  case False
  with assms have a: "of_int m - 1 / 2 < y" "y < of_int m" by linarith+
  then have "of_int (m - 1) \<le> y" "y < of_int (m - 1) + 1" by simp_all
  then have f: "\<lfloor>y\<rfloor> = m - 1" by (rule floor_unique)
  from a have "1 / 2 < y - of_int (m - 1)" by simp
  with f show ?thesis by (simp add: round_even_def Let_def)
qed

lemma round_even_int [simp]: "round_even (of_int m) = m"
  by (rule round_even_near) simp

lemma round_even_floor: "\<lfloor>y\<rfloor> \<le> round_even y" "round_even y \<le> \<lfloor>y\<rfloor> + 1"
  by (simp_all add: round_even_def Let_def)

lemma round_even_err: "\<bar>of_int (round_even y) - y\<bar> \<le> 1 / 2"
proof -
  have "of_int \<lfloor>y\<rfloor> \<le> y" "y < of_int \<lfloor>y\<rfloor> + 1" by linarith+
  then show ?thesis by (auto simp: round_even_def Let_def abs_le_iff)
qed

lemma round_even_mono:
  assumes "x \<le> y"
  shows "round_even x \<le> round_even y"
proof (cases "\<lfloor>x\<rfloor> = \<lfloor>y\<rfloor>")
  case True
  with assms show ?thesis by (auto simp: round_even_def Let_def)
next
  case False
  with assms have "\<lfloor>x\<rfloor> < \<lfloor>y\<rfloor>" using floor_mono[OF assms] by linarith
  with round_even_floor(2)[of x] round_even_floor(1)[of y] show ?thesis by linarith
qed

lemma round_even_ge: "of_int a \<le> y \<Longrightarrow> a \<le> round_even y"
  using round_even_mono[of "of_int a" y] by simp

lemma round_even_le: "y \<le> of_int b \<Longrightarrow> round_even y \<le> b"
  using round_even_mono[of y "of_int b"] by simp


section \<open>Rounding to \<open>p\<close> significant bits\<close>

lemma fround_0 [simp]: "fround p 0 = 0"
  by (simp add: fround_def)

lemma fround_pos_eq:
  assumes "0 < x"
  shows "fround p x = of_int (round_even (x / pow2 (ilog2 x - int p + 1))) * pow2 (ilog2 x - int p + 1)"
  using assms by (simp add: fround_def Let_def)

lemma scaled_lower:
  assumes "0 < x" and "0 < p"
  shows "2 ^ (p - 1) \<le> x / pow2 (ilog2 x - int p + 1)"
proof -
  let ?s = "ilog2 x - int p + 1"
  have "ilog2 x = ?s + int (p - 1)" using assms(2) by simp
  then have "pow2 (ilog2 x) = pow2 ?s * 2 ^ (p - 1)" by (metis pow2_add pow2_int)
  with ilog2_lower[OF assms(1)] have "pow2 ?s * 2 ^ (p - 1) \<le> x" by simp
  then show ?thesis by (simp add: field_simps)
qed

lemma scaled_upper:
  assumes "0 < x"
  shows "x / pow2 (ilog2 x - int p + 1) < 2 ^ p"
proof -
  let ?s = "ilog2 x - int p + 1"
  have "ilog2 x + 1 = ?s + int p" by simp
  then have "pow2 (ilog2 x + 1) = pow2 ?s * 2 ^ p" by (metis pow2_add pow2_int)
  with ilog2_upper[OF assms(1)] have "x < pow2 ?s * 2 ^ p" by simp
  then show ?thesis by (simp add: field_simps)
qed

lemma fround_struct:
  assumes "0 < x" and "0 < p"
  shows "\<exists>r. fround p x = of_int r * pow2 (ilog2 x - int p + 1) \<and> 2 ^ (p - 1) \<le> r \<and> r \<le> 2 ^ p \<and>
           \<bar>of_int r - x / pow2 (ilog2 x - int p + 1)\<bar> \<le> 1 / 2"
proof -
  let ?s = "ilog2 x - int p + 1"
  let ?y = "x / pow2 ?s"
  have "of_int (2 ^ (p - 1)) \<le> ?y" using scaled_lower[OF assms] by simp
  then have a: "2 ^ (p - 1) \<le> round_even ?y" by (rule round_even_ge)
  have "?y \<le> of_int (2 ^ p)" using scaled_upper[OF assms(1), of p] by simp
  then have b: "round_even ?y \<le> 2 ^ p" by (rule round_even_le)
  from a b round_even_err[of ?y] fround_pos_eq[OF assms(1), of p] show ?thesis by blast
qed

lemma fround_gt0:
  assumes "0 < x" and "0 < p"
  shows "0 < fround p x"
proof -
  from fround_struct[OF assms] obtain r where
    r: "fround p x = of_int r * pow2 (ilog2 x - int p + 1)" "2 ^ (p - 1) \<le> r" by blast
  have "(0::int) < 2 ^ (p - 1)" by simp
  with r(2) have "0 < r" by linarith
  with r(1) show ?thesis by simp
qed

lemma fround_nonneg:
  assumes "0 \<le> x" and "0 < p"
  shows "0 \<le> fround p x"
  using fround_gt0[of x p] assms by (cases "x = 0") (simp_all add: less_imp_le)

lemma fround_err:
  assumes "0 < x" and "0 < p"
  shows "\<bar>fround p x - x\<bar> \<le> x / 2 ^ p"
proof -
  let ?u = "pow2 (ilog2 x - int p + 1)"
  from fround_struct[OF assms] obtain r where
    r: "fround p x = of_int r * ?u" "\<bar>of_int r - x / ?u\<bar> \<le> 1 / 2" by blast
  have "fround p x - x = (of_int r - x / ?u) * ?u" by (simp add: r(1) field_simps)
  then have "\<bar>fround p x - x\<bar> = \<bar>of_int r - x / ?u\<bar> * ?u" by (simp add: abs_mult)
  also have "\<dots> \<le> 1 / 2 * ?u" using r(2) by (rule mult_right_mono) simp
  finally have e: "\<bar>fround p x - x\<bar> \<le> ?u / 2" by simp
  have "2 ^ p = (2::rat) * 2 ^ (p - 1)" using assms(2) by (cases p) simp_all
  moreover from scaled_lower[OF assms] have "?u * 2 ^ (p - 1) \<le> x" by (simp add: field_simps)
  ultimately have "?u * 2 ^ p \<le> 2 * x" by simp
  then have "?u / 2 \<le> x / 2 ^ p" by (simp add: field_simps)
  with e show ?thesis by linarith
qed

lemma ilog2_mono:
  assumes "0 < x" and "x \<le> y"
  shows "ilog2 x \<le> ilog2 y"
proof -
  have y: "0 < y" using assms by linarith
  from ilog2_lower[OF assms(1)] assms(2) ilog2_upper[OF y] have "pow2 (ilog2 x) < pow2 (ilog2 y + 1)" by linarith
  then have "ilog2 x < ilog2 y + 1" by (simp only: pow2_less_iff)
  then show ?thesis by simp
qed

lemma fround_mono_pos:
  assumes "0 < x" and "x \<le> y" and "0 < p"
  shows "fround p x \<le> fround p y"
proof -
  have y: "0 < y" using assms by linarith
  let ?sx = "ilog2 x - int p + 1"
  let ?sy = "ilog2 y - int p + 1"
  show ?thesis
  proof (cases "ilog2 x = ilog2 y")
    case True
    have "x / pow2 ?sy \<le> y / pow2 ?sy" using assms(2) by (simp add: divide_right_mono)
    then have "round_even (x / pow2 ?sy) \<le> round_even (y / pow2 ?sy)" by (rule round_even_mono)
    then have "(of_int (round_even (x / pow2 ?sy)) :: rat) \<le> of_int (round_even (y / pow2 ?sy))"
      by (simp only: of_int_le_iff)
    then have "of_int (round_even (x / pow2 ?sy)) * pow2 ?sy \<le> of_int (round_even (y / pow2 ?sy)) * pow2 ?sy"
      by (rule mult_right_mono) simp
    then show ?thesis by (simp add: fround_pos_eq[OF assms(1)] fround_pos_eq[OF y] True)
  next
    case False
    with ilog2_mono[OF assms(1,2)] have lt: "ilog2 x + 1 \<le> ilog2 y" by simp
    from fround_struct[OF assms(1,3)] obtain r where
      r: "fround p x = of_int r * pow2 ?sx" "r \<le> 2 ^ p" by blast
    from fround_struct[OF y assms(3)] obtain q where
      q: "fround p y = of_int q * pow2 ?sy" "2 ^ (p - 1) \<le> q" by blast
    have "(of_int r :: rat) \<le> of_int (2 ^ p)" using r(2) by (simp only: of_int_le_iff)
    then have "of_int r * pow2 ?sx \<le> of_int (2 ^ p) * pow2 ?sx" by (rule mult_right_mono) simp
    also have "\<dots> = pow2 (int p + ?sx)" by (rule pow2_scale_int)
    also have "\<dots> \<le> pow2 (int (p - 1) + ?sy)" using lt assms(3) by (intro pow2_le) simp
    also have "\<dots> = of_int (2 ^ (p - 1)) * pow2 ?sy" by (rule pow2_scale_int[symmetric])
    also have "\<dots> \<le> of_int q * pow2 ?sy"
    proof (rule mult_right_mono)
      show "(of_int (2 ^ (p - 1)) :: rat) \<le> of_int q" using q(2) by (simp only: of_int_le_iff)
    qed simp
    finally show ?thesis by (simp only: r(1) q(1))
  qed
qed

lemma fround_mono:
  assumes "0 \<le> x" and "x \<le> y" and "0 < p"
  shows "fround p x \<le> fround p y"
proof (cases "x = 0")
  case True
  with assms fround_nonneg[of y p] show ?thesis by simp
next
  case False
  with assms(1) have "0 < x" by simp
  from fround_mono_pos[OF this assms(2,3)] show ?thesis .
qed

lemma fround_id:
  assumes "0 < m" and "m < 2 ^ p"
  shows "fround p (of_int m * pow2 k) = of_int m * pow2 k"
proof -
  define x :: rat where "x = of_int m * pow2 k"
  define s where "s = ilog2 x - int p + 1"
  have x: "0 < x" using assms(1) by (simp add: x_def)
  have "(of_int m :: rat) < of_int (2 ^ p)" using assms(2) by (simp only: of_int_less_iff)
  then have "x < of_int (2 ^ p) * pow2 k" unfolding x_def by (rule mult_strict_right_mono) simp
  also have "\<dots> = pow2 (int p + k)" by (rule pow2_scale_int)
  finally have "pow2 (ilog2 x) < pow2 (int p + k)" using ilog2_lower[OF x] by linarith
  then have "ilog2 x < int p + k" by (simp only: pow2_less_iff)
  then have sk: "s \<le> k" by (simp add: s_def)
  define d where "d = nat (k - s)"
  have "k = int d + s" using sk by (simp add: d_def)
  then have "pow2 k = 2 ^ d * pow2 s" by (simp only: pow2_scale)
  then have "x = of_int m * (2 ^ d * pow2 s)" by (simp only: x_def)
  then have xs: "x = of_int (m * 2 ^ d) * pow2 s" by (simp add: mult.assoc)
  then have "x / pow2 s = of_int (m * 2 ^ d)" by simp
  then have "round_even (x / pow2 s) = m * 2 ^ d" by (simp only: round_even_int)
  then have "fround p x = of_int (m * 2 ^ d) * pow2 s" by (simp only: fround_pos_eq[OF x] s_def)
  then have "fround p x = x" by (simp only: xs[symmetric])
  then show ?thesis by (simp only: x_def)
qed

lemma fround_fixed:
  assumes "fround p f = f" and "0 < f" and "0 < p"
  shows "\<exists>m. f = of_int m * pow2 (ilog2 f - int p + 1) \<and> 2 ^ (p - 1) \<le> m \<and> m < 2 ^ p"
proof -
  let ?u = "pow2 (ilog2 f - int p + 1)"
  from fround_struct[OF assms(2,3)] assms(1) obtain r where
    r: "f = of_int r * ?u" "2 ^ (p - 1) \<le> r" by metis
  from r(1) have "f / ?u = of_int r" by (simp add: field_simps)
  with scaled_upper[OF assms(2), of p] have "(of_int r :: rat) < of_int (2 ^ p)" by simp
  then have "r < 2 ^ p" by (simp only: of_int_less_iff)
  with r show ?thesis by blast
qed

lemma fround_near:
  assumes fx: "fround p f = f" and f: "0 < f" and p: "0 < p"
    and w: "f \<le> w" "w < f * (1 + 1 / 2 ^ (p + 1))"
  shows "fround p w = f"
proof -
  define e where "e = ilog2 f"
  define s where "s = e - int p + 1"
  define u where "u = pow2 s"
  have u: "0 < u" by (simp add: u_def)
  from fround_fixed[OF fx f p] obtain m where
    m: "f = of_int m * u" "2 ^ (p - 1) \<le> m" "m < 2 ^ p"
    unfolding u_def s_def e_def by blast
  have w0: "0 < w" using f w(1) by linarith
  have "(of_int m :: rat) < of_int (2 ^ p)" using m(3) by (simp only: of_int_less_iff)
  then have mp: "(of_int m :: rat) < 2 ^ p" by simp
  have "m + 1 \<le> 2 ^ p" using m(3) by simp
  then have "(of_int (m + 1) :: rat) \<le> of_int (2 ^ p)" by (simp only: of_int_le_iff)
  then have m1: "(of_int m :: rat) + 1 \<le> 2 ^ p" by simp
  have "of_int m * u < 2 ^ p * u" using mp u by simp
  then have "of_int m * u / 2 ^ (p + 1) < u / 2" by (simp add: field_simps)
  then have h: "f / 2 ^ (p + 1) < u / 2" by (simp only: m(1))
  from w(2) have "w < f + f / 2 ^ (p + 1)" by (simp add: field_simps)
  with h have "w < f + u / 2" by linarith
  then have wu: "w < of_int m * u + u / 2" by (simp only: m(1))
  have "of_int m * u + u / 2 < (of_int m + 1) * u" using u by (simp add: field_simps)
  also have "\<dots> \<le> 2 ^ p * u" using m1 u by (simp add: mult_right_mono)
  also have "\<dots> = pow2 (int p + s)" unfolding u_def by (rule pow2_scale)
  also have "int p + s = e + 1" by (simp add: s_def)
  finally have "w < pow2 (e + 1)" using wu by linarith
  moreover have "pow2 e \<le> w" using ilog2_lower[OF f] w(1) unfolding e_def by linarith
  ultimately have e: "ilog2 w = e" by (intro ilog2_unique)
  have "of_int m * u \<le> w" using w(1) by (simp only: m(1))
  then have "of_int m \<le> w / u" using u by (simp add: field_simps)
  moreover have "w / u < of_int m + 1 / 2" using wu u by (simp add: field_simps)
  ultimately have "\<bar>w / u - of_int m\<bar> < 1 / 2" by linarith
  then have "round_even (w / u) = m" by (rule round_even_near)
  then have "fround p w = of_int m * u" by (simp add: fround_pos_eq[OF w0] e u_def s_def)
  then show ?thesis by (simp only: m(1))
qed

lemma fround_eval:
  assumes "pow2 e \<le> x" and "x < pow2 (e + 1)" and "\<bar>x / pow2 (e - int p + 1) - of_int r\<bar> < 1 / 2"
  shows "fround p x = of_int r * pow2 (e - int p + 1)"
proof -
  have x: "0 < x" using assms(1) pow2_pos[of e] by linarith
  have e: "ilog2 x = e" using assms(1,2) by (rule ilog2_unique)
  from assms(3) have "round_even (x / pow2 (e - int p + 1)) = r" by (rule round_even_near)
  then show ?thesis by (simp add: fround_pos_eq[OF x] e)
qed

lemma float_is_double:
  assumes "to_float f = f" and "0 < f"
  shows "to_double f = f"
proof -
  from fround_fixed[of 24 f] assms obtain m where
    m: "f = of_int m * pow2 (ilog2 f - int 24 + 1)" "2 ^ (24 - 1) \<le> m" "m < 2 ^ 24"
    unfolding to_float_def by auto
  from m(2) have "0 < m" by simp
  moreover from m(3) have "m < 2 ^ 53" by simp
  ultimately have "fround 53 (of_int m * pow2 (ilog2 f - int 24 + 1)) = of_int m * pow2 (ilog2 f - int 24 + 1)"
    by (rule fround_id)
  with m(1) show ?thesis unfolding to_double_def by simp
qed

lemma nat_is_double:
  assumes "n \<le> 2 ^ 53"
  shows "to_double (of_nat n) = of_nat n"
proof -
  consider "n = 0" | "n = 2 ^ 53" | "0 < n" "n < 2 ^ 53" using assms by linarith
  then show ?thesis
  proof cases
    case 1
    then show ?thesis by (simp add: to_double_def)
  next
    case 2
    have "fround 53 (of_int 1 * pow2 53) = of_int 1 * pow2 53" by (rule fround_id) simp_all
    then show ?thesis by (simp add: to_double_def 2 pow2_def)
  next
    case 3
    then have "0 < int n" "int n < 2 ^ 53" by simp_all
    from fround_id[OF this, of 0] show ?thesis by (simp add: to_double_def)
  qed
qed


lemma dyadic_is_double:
  assumes "0 < m" and "m < 2 ^ 53"
  shows "to_double (of_int m / 2 ^ j) = of_int m / 2 ^ j"
proof -
  have "pow2 (- int j) = 1 / 2 ^ j" by (cases "j = 0") (simp_all add: pow2_def)
  with fround_id[OF assms, of "- int j"] show ?thesis by (simp add: to_double_def)
qed

lemma dyadic_is_float:
  assumes "0 < m" and "m < 2 ^ 24"
  shows "to_float (of_int m / 2 ^ j) = of_int m / 2 ^ j"
proof -
  have "pow2 (- int j) = 1 / 2 ^ j" by (cases "j = 0") (simp_all add: pow2_def)
  with fround_id[OF assms, of "- int j"] show ?thesis by (simp add: to_float_def)
qed

lemma to_double_mono: "0 \<le> x \<Longrightarrow> x \<le> y \<Longrightarrow> to_double x \<le> to_double y"
  unfolding to_double_def by (rule fround_mono) simp_all

lemma to_float_mono: "0 \<le> x \<Longrightarrow> x \<le> y \<Longrightarrow> to_float x \<le> to_float y"
  unfolding to_float_def by (rule fround_mono) simp_all

lemma to_double_nonneg: "0 \<le> x \<Longrightarrow> 0 \<le> to_double x"
  unfolding to_double_def by (rule fround_nonneg) simp_all

lemma to_double_pos: "0 < x \<Longrightarrow> 0 < to_double x"
  unfolding to_double_def by (rule fround_gt0) simp_all

lemma to_double_0 [simp]: "to_double 0 = 0"
  by (simp add: to_double_def)

lemma to_float_0 [simp]: "to_float 0 = 0"
  by (simp add: to_float_def)

lemma double_quotient_0 [simp]: "double_quotient 0 d = 0"
  by (simp add: double_quotient_def)

lemma double_quotient_nonneg: "0 < d \<Longrightarrow> 0 \<le> double_quotient n d"
  unfolding double_quotient_def by (intro to_double_nonneg divide_nonneg_pos) simp_all

lemma double_quotient_pos: "0 < n \<Longrightarrow> 0 < d \<Longrightarrow> 0 < double_quotient n d"
  unfolding double_quotient_def by (intro to_double_pos divide_pos_pos) simp_all

lemma double_quotient_mono:
  assumes "m \<le> n" and "0 < d"
  shows "double_quotient m d \<le> double_quotient n d"
proof -
  have "to_double (of_nat m) \<le> to_double (of_nat n)" using assms(1) by (intro to_double_mono) simp_all
  then have "to_double (of_nat m) / d \<le> to_double (of_nat n) / d" using assms(2) by (simp add: divide_right_mono)
  moreover have "0 \<le> to_double (of_nat m) / d" using assms(2) by (intro divide_nonneg_pos to_double_nonneg) simp_all
  ultimately show ?thesis unfolding double_quotient_def by (intro to_double_mono)
qed

text \<open>A ratio that does not exceed a \<open>float\<close> does not exceed it after the two roundings.\<close>

lemma rounded_le_float:
  assumes "0 \<le> z" and "z \<le> f" and "to_float f = f"
  shows "to_float (to_double z) \<le> f"
proof (cases "0 < f")
  case True
  have "to_double z \<le> to_double f" using assms(1,2) by (rule to_double_mono)
  then have "to_double z \<le> f" by (simp only: float_is_double[OF assms(3) True])
  with to_double_nonneg[OF assms(1)] have "to_float (to_double z) \<le> to_float f" by (rule to_float_mono)
  then show ?thesis by (simp only: assms(3))
next
  case False
  with assms(1,2) have "z = 0" "f = 0" by simp_all
  then show ?thesis by simp
qed

text \<open>
  After \<open>rehash\<close> has made at least \<open>ceil(a / f)\<close> buckets, with the quotient computed in
  \<open>double\<close>, the load factor computed in \<open>double\<close> and narrowed to \<open>float\<close> does not
  exceed the \<open>float\<close> threshold \<open>f\<close>.
\<close>

lemma growth_restores:
  assumes a: "0 \<le> a" and f: "0 < f" and ff: "to_float f = f"
    and n: "0 < n" "n \<le> 2 ^ 53"
    and x: "\<lceil>to_double (a / f)\<rceil> \<le> int n"
  shows "to_float (to_double (a / to_double (of_nat n))) \<le> f"
proof -
  define z where "z = a / of_nat n"
  have z0: "0 \<le> z" using a by (simp add: z_def)
  have nd: "to_double (of_nat n) = of_nat n" by (rule nat_is_double[OF n(2)])
  have goal: "to_float (to_double z) \<le> f"
  proof (cases "z \<le> f")
    case True
    with z0 show ?thesis using ff by (rule rounded_le_float)
  next
    case False
    then have zf: "f < z" by simp
    define q where "q = a / f"
    define c1 :: rat where "c1 = 1 - 1 / 2 ^ 53"
    define c2 :: rat where "c2 = 1 + 1 / 2 ^ 53"
    have c1: "0 < c1" and c2: "0 < c2" by (simp_all add: c1_def c2_def)
    have num: "c2 < (1 + 1 / 2 ^ (24 + 1)) * c1" by (simp add: c1_def c2_def)
    have z: "0 < z" using zf f by linarith
    have np: "(0::rat) < of_nat n" using n(1) by simp
    have azn: "z * of_nat n = a" using np by (simp add: z_def)
    have afq: "f * q = a" using f by (simp add: q_def)
    have ap: "0 < a" using z np azn by (metis mult_pos_pos)
    have qp: "0 < q" using ap f by (simp add: q_def)
    have "to_double q \<le> of_int \<lceil>to_double q\<rceil>" by (rule le_of_int_ceiling)
    also have "\<dots> \<le> of_int (int n)" using x unfolding q_def by (simp only: of_int_le_iff)
    finally have dn: "to_double q \<le> of_nat n" by simp
    have "\<bar>fround 53 q - q\<bar> \<le> q / 2 ^ 53" by (rule fround_err[OF qp]) simp
    then have "q - to_double q \<le> q / 2 ^ 53" unfolding to_double_def by linarith
    with dn have "q - q / 2 ^ 53 \<le> of_nat n" by linarith
    then have h1: "q * c1 \<le> of_nat n" by (simp add: c1_def field_simps)
    have "z * (q * c1) \<le> z * of_nat n" using h1 z0 by (rule mult_left_mono)
    then have "(z * c1) * q \<le> f * q" by (simp only: azn afq[symmetric] mult_ac)
    then have zc: "z * c1 \<le> f" using qp by simp
    have "\<bar>fround 53 z - z\<bar> \<le> z / 2 ^ 53" by (rule fround_err[OF z]) simp
    then have "to_double z - z \<le> z / 2 ^ 53" unfolding to_double_def by linarith
    then have rz: "to_double z \<le> z * c2" by (simp add: c2_def field_simps)
    have "to_double z * c1 \<le> (z * c2) * c1" using rz c1 by (simp add: mult_right_mono)
    also have "\<dots> = (z * c1) * c2" by (simp add: mult_ac)
    also have "\<dots> \<le> f * c2" using zc c2 by (simp add: mult_right_mono)
    also have "\<dots> < f * ((1 + 1 / 2 ^ (24 + 1)) * c1)" using num f by (simp only: mult_less_cancel_left_pos)
    finally have "to_double z * c1 < (f * (1 + 1 / 2 ^ (24 + 1))) * c1" by (simp only: mult.assoc)
    then have up: "to_double z < f * (1 + 1 / 2 ^ (24 + 1))" using c1 by (simp only: mult_less_cancel_right_pos)
    have "to_double f \<le> to_double z" using f zf by (intro to_double_mono) simp_all
    then have lo: "f \<le> to_double z" by (simp only: float_is_double[OF ff f])
    have "fround 24 (to_double z) = f"
      by (rule fround_near[OF _ f _ lo up]) (simp_all add: ff[unfolded to_float_def])
    then show ?thesis by (simp add: to_float_def)
  qed
  then show ?thesis by (simp only: nd z_def)
qed

text \<open>If the rounded load factor exceeds a \<open>float\<close> threshold, so does the exact ratio.\<close>

lemma exceeds_exact:
  assumes "f < to_float (to_double z)" and "0 \<le> z" and "to_float f = f"
  shows "f < z"
  using rounded_le_float[OF assms(2) _ assms(3)] assms(1) by (cases "z \<le> f") simp_all

lemma double_quotient_le_nat:
  assumes "0 < d" and "of_nat n / d \<le> of_nat b" and "n \<le> 2 ^ 53" and "b \<le> 2 ^ 53"
  shows "double_quotient n d \<le> of_nat b"
proof -
  have "to_double (of_nat n / d) \<le> to_double (of_nat b)" using assms(1,2) by (intro to_double_mono) simp_all
  then show ?thesis by (simp add: double_quotient_def nat_is_double[OF assms(3)] nat_is_double[OF assms(4)])
qed


section \<open>Basic facts\<close>

lemma find_pos_None: "find_pos b k = None \<longleftrightarrow> k \<notin> key ` set b"
  by (induction b) auto

lemma find_pos_Some:
  "find_pos b k = Some i \<Longrightarrow> i < length b \<and> key (b ! i) = k \<and> (\<forall>j<i. key (b ! j) \<noteq> k)"
proof (induction b arbitrary: i)
  case Nil
  then show ?case by simp
next
  case (Cons e es)
  show ?case
  proof (cases "key e = k")
    case True
    with Cons.prems show ?thesis by simp
  next
    case False
    with Cons.prems obtain i' where i': "find_pos es k = Some i'" "i = Suc i'"
      by auto
    from Cons.IH[OF i'(1)] False i'(2) show ?thesis
      by (auto simp: nth_Cons split: nat.splits)
  qed
qed

lemma find_pos_map_of:
  "map_of (map (\<lambda>e. (key e, val e)) b) k = map_option (\<lambda>i. val (b ! i)) (find_pos b k)"
  by (induction b) (auto simp: option.map_comp comp_def)

lemma map_of_concat_bucket:
  assumes "j < length bs" and "\<forall>i<length bs. i \<noteq> j \<longrightarrow> k \<notin> key ` set (bs ! i)"
  shows "map_of (map (\<lambda>e. (key e, val e)) (concat bs)) k = map_of (map (\<lambda>e. (key e, val e)) (bs ! j)) k"
  using assms
proof (induction bs arbitrary: j)
  case Nil
  then show ?case by simp
next
  case (Cons b bs)
  show ?case
  proof (cases j)
    case 0
    have "k \<notin> key ` set (concat bs)"
    proof
      assume "k \<in> key ` set (concat bs)"
      then obtain e where "e \<in> set (concat bs)" "key e = k" by auto
      then obtain b' where "b' \<in> set bs" "e \<in> set b'" by auto
      then obtain i where "i < length bs" "e \<in> set (bs ! i)"
        by (metis in_set_conv_nth)
      with Cons.prems(2)[rule_format, of "Suc i"] 0 \<open>key e = k\<close> show False by auto
    qed
    then have "map_of (map (\<lambda>e. (key e, val e)) (concat bs)) k = None"
      by (auto simp: map_of_eq_None_iff image_iff)
    with 0 show ?thesis by (simp add: map_add_def split: option.splits)
  next
    case (Suc j')
    have nb: "k \<notin> key ` set b"
      using Cons.prems(2)[rule_format, of 0] Suc by auto
    then have "map_of (map (\<lambda>e. (key e, val e)) b) k = None"
      by (auto simp: map_of_eq_None_iff image_iff)
    moreover have "map_of (map (\<lambda>e. (key e, val e)) (concat bs)) k
        = map_of (map (\<lambda>e. (key e, val e)) (bs ! j')) k"
    proof (rule Cons.IH)
      show "j' < length bs" using Cons.prems(1) Suc by simp
      show "\<forall>i<length bs. i \<noteq> j' \<longrightarrow> k \<notin> key ` set (bs ! i)"
        using Cons.prems(2) Suc by (metis Suc_less_eq length_Cons nat.inject nth_Cons_Suc)
    qed
    ultimately show ?thesis using Suc by (simp add: map_add_def split: option.splits)
  qed
qed

lemma well_formed_placed:
  "well_formed h t \<Longrightarrow> i < bucket_count t \<Longrightarrow> e \<in> set (buckets t ! i) \<Longrightarrow> h (key e) mod bucket_count t = i"
proof -
  assume w: "well_formed h t" and i: "i < bucket_count t" and e: "e \<in> set (buckets t ! i)"
  from w i have "(i, buckets t ! i) \<in> set (enumerate 0 (buckets t))"
    by (simp add: well_formed_def in_set_enumerate_eq)
  moreover from w have "\<forall>(i, b) \<in> set (enumerate 0 (buckets t)). \<forall>e \<in> set b. h (key e) mod bucket_count t = i"
    by (simp add: well_formed_def)
  ultimately show ?thesis using e by fastforce
qed

lemma well_formed_hash_func: "well_formed h t \<Longrightarrow> hash_func h t k = Inr (h k mod bucket_count t)"
  by (simp add: well_formed_def hash_func_def)

lemma well_formed_bucket_at: "well_formed h t \<Longrightarrow> i < bucket_count t \<Longrightarrow> bucket_at t i = Inr (buckets t ! i)"
  by (simp add: well_formed_def bucket_at_def)

lemma well_formed_find_entry:
  "well_formed h t \<Longrightarrow> find_entry h t k =
     Inr (map_option (\<lambda>i. (h k mod bucket_count t, i)) (find_pos (buckets t ! (h k mod bucket_count t)) k))"
proof -
  assume w: "well_formed h t"
  then have "h k mod bucket_count t < bucket_count t" by (simp add: well_formed_def)
  then show ?thesis
    by (simp add: find_entry_def well_formed_hash_func[OF w] well_formed_bucket_at[OF w])
qed

lemma well_formed_lookup_bucket:
  assumes "well_formed h t"
  shows "lookup t k = map_of (map (\<lambda>e. (key e, val e)) (buckets t ! (h k mod bucket_count t))) k"
  unfolding lookup_def entries_def
proof (rule map_of_concat_bucket)
  show "h k mod bucket_count t < length (buckets t)" using assms by (simp add: well_formed_def)
  show "\<forall>i<length (buckets t). i \<noteq> h k mod bucket_count t \<longrightarrow> k \<notin> key ` set (buckets t ! i)"
    using well_formed_placed[OF assms] assms by (auto simp: well_formed_def)
qed

lemma at_lookup:
  assumes "well_formed h t"
  shows "at_hm h t k = (case lookup t k of None \<Rightarrow> Inl KeyNotFound | Some v \<Rightarrow> Inr v)"
  by (simp add: at_hm_def well_formed_find_entry[OF assms] well_formed_lookup_bucket[OF assms] find_pos_map_of
      split: option.splits)

lemma contains_lookup:
  assumes "well_formed h t"
  shows "contains h t k = Inr (lookup t k \<noteq> None)"
  by (simp add: contains_def well_formed_find_entry[OF assms] well_formed_lookup_bucket[OF assms] find_pos_map_of
      split: option.splits)

lemma lookup_None_iff: "lookup t k = None \<longleftrightarrow> k \<notin> key ` set (entries t)"
  by (auto simp: lookup_def map_of_eq_None_iff image_iff)

lemma entry_in_set_conv:
  "(k, v) \<in> set (map (\<lambda>e. (key e, val e)) es) \<longleftrightarrow> Entry k v \<in> set es"
proof
  assume "(k, v) \<in> set (map (\<lambda>e. (key e, val e)) es)"
  then obtain e where "e \<in> set es" "key e = k" "val e = v" by auto
  then show "Entry k v \<in> set es" by (cases e) auto
next
  assume "Entry k v \<in> set es"
  then show "(k, v) \<in> set (map (\<lambda>e. (key e, val e)) es)" by force
qed

lemma lookup_Some_iff:
  assumes "distinct (map key (entries t))"
  shows "lookup t k = Some v \<longleftrightarrow> Entry k v \<in> set (entries t)"
proof -
  have "distinct (map fst (map (\<lambda>e. (key e, val e)) (entries t)))"
    using assms by (simp add: comp_def)
  then show ?thesis
    unfolding lookup_def by (simp only: map_of_eq_Some_iff entry_in_set_conv)
qed

lemma well_formed_default: "well_formed h HashMap_default"
  by (auto simp: well_formed_def HashMap_default_def entries_def in_set_enumerate_eq size_t_range_def)

lemma well_formed_sample: "well_formed nat_hash sample"
  by (simp add: well_formed_def sample_def entries_def nat_hash_def enumerate_eq_zip upt_rec size_t_range_def)

lemma placed_iff:
  "(\<forall>(i, b) \<in> set (enumerate 0 bs). \<forall>e \<in> set b. P e i) \<longleftrightarrow> (\<forall>i<length bs. \<forall>e \<in> set (bs ! i). P e i)"
proof
  assume l: "\<forall>(i, b) \<in> set (enumerate 0 bs). \<forall>e \<in> set b. P e i"
  show "\<forall>i<length bs. \<forall>e \<in> set (bs ! i). P e i"
  proof (intro allI impI ballI)
    fix i e assume "i < length bs" "e \<in> set (bs ! i)"
    then have "(i, bs ! i) \<in> set (enumerate 0 bs)" by (simp add: in_set_enumerate_eq)
    with l \<open>e \<in> set (bs ! i)\<close> show "P e i" by fastforce
  qed
next
  assume "\<forall>i<length bs. \<forall>e \<in> set (bs ! i). P e i"
  then show "\<forall>(i, b) \<in> set (enumerate 0 bs). \<forall>e \<in> set b. P e i"
    by (auto simp: in_set_enumerate_eq)
qed

lemma well_formed_iff:
  "well_formed h t \<longleftrightarrow>
     length (buckets t) = bucket_count t \<and> 0 < bucket_count t \<and>
     bucket_count t < size_t_range \<and> entry_count t < size_t_range \<and>
     entry_count t = size (mset (entries t)) \<and>
     (\<forall>i<bucket_count t. \<forall>e \<in> set (buckets t ! i). h (key e) mod bucket_count t = i) \<and>
     distinct (map key (entries t))"
  unfolding well_formed_def placed_iff by auto

lemma mset_concat_update:
  "i < length bs \<Longrightarrow> mset (concat (bs[i := b'])) + mset (bs ! i) = mset (concat bs) + mset b'"
proof (induction bs arbitrary: i)
  case Nil
  then show ?case by simp
next
  case (Cons b bs)
  show ?case
  proof (cases i)
    case 0
    then show ?thesis by simp
  next
    case (Suc j)
    with Cons.prems have "j < length bs" by simp
    from Cons.IH[OF this] Suc show ?thesis by (simp add: ac_simps)
  qed
qed

lemma mset_concat_append1:
  assumes "i < length bs"
  shows "mset (concat (bs[i := bs ! i @ [e]])) = add_mset e (mset (concat bs))"
  using mset_concat_update[OF assms, of "bs ! i @ [e]"] by simp

lemma mset_swap_remove:
  assumes "i < length b"
  shows "add_mset (b ! i) (mset (swap_remove b i)) = mset b"
proof (cases "i + 1 = length b")
  case True
  then have "b \<noteq> []" by auto
  then have "b = butlast b @ [last b]" by simp
  moreover have "last b = b ! i" using True \<open>b \<noteq> []\<close>
    by (metis add_diff_cancel_right' last_conv_nth)
  ultimately have "mset b = add_mset (b ! i) (mset (butlast b))"
    by (metis mset.simps(2) mset_append union_mset_add_mset_right add.right_neutral mset.simps(1))
  with True show ?thesis by (simp add: swap_remove_def)
next
  case False
  let ?c = "b[i := last b]"
  have ne: "b \<noteq> []" using assms by auto
  have len: "length ?c = length b" by simp
  have "last ?c = last b"
    using False assms ne by (simp add: last_conv_nth)
  moreover have "?c \<noteq> []" using ne by simp
  ultimately have "mset ?c = add_mset (last b) (mset (butlast ?c))"
    by (metis append_butlast_last_id mset.simps(2) mset_append union_mset_add_mset_right add.right_neutral mset.simps(1))
  moreover have "add_mset (b ! i) (mset ?c) = add_mset (last b) (mset b)"
    using assms by (simp add: mset_update)
  ultimately show ?thesis using False by (simp add: swap_remove_def)
qed

lemma set_swap_remove: "i < length b \<Longrightarrow> set (swap_remove b i) \<subseteq> set b"
proof
  fix x assume i: "i < length b" and "x \<in> set (swap_remove b i)"
  then have "x \<in># mset (swap_remove b i)" by simp
  then have "x \<in># add_mset (b ! i) (mset (swap_remove b i))" by simp
  with mset_swap_remove[OF i] show "x \<in> set b" by (metis set_mset_mset)
qed

lemma length_swap_remove: "i < length b \<Longrightarrow> length (swap_remove b i) = length b - 1"
  by (simp add: swap_remove_def)

section \<open>Lookup with \<open>at\<close>\<close>

text \<open>
  Claim C8. \<open>at\<close> only reads: the source function writes no member, so its model
  has no table among its results. On a well-formed table it returns the value
  \<open>v\<close> exactly when the entry \<open>(k, v)\<close> is stored, it fails with \<open>KeyNotFound\<close>
  exactly when no entry has the key \<open>k\<close>, and it fails in no other way. On the
  empty table of the default constructor \<open>at("missing")\<close> is \<open>KeyNotFound\<close>,
  whatever the hash function.
\<close>

theorem at_lookup_only:
  assumes "well_formed h t"
  shows "(at_hm h t k = Inl KeyNotFound \<longleftrightarrow> k \<notin> key ` set (entries t)) \<and>
         (\<forall>v. at_hm h t k = Inr v \<longleftrightarrow> Entry k v \<in> set (entries t)) \<and>
         (\<forall>er. at_hm h t k = Inl er \<longrightarrow> er = KeyNotFound) \<and>
         at_hm h' (HashMap_default :: (string, 'w) HashMap) ''missing'' = Inl KeyNotFound"
proof -
  have d: "distinct (map key (entries t))" using assms by (simp add: well_formed_def)
  have 1: "at_hm h t k = Inl KeyNotFound \<longleftrightarrow> k \<notin> key ` set (entries t)"
    by (simp add: at_lookup[OF assms] lookup_None_iff[symmetric] split: option.splits)
  have 2: "\<forall>v. at_hm h t k = Inr v \<longleftrightarrow> Entry k v \<in> set (entries t)"
    by (simp add: at_lookup[OF assms] lookup_Some_iff[OF d, symmetric] split: option.splits)
  have 3: "\<forall>er. at_hm h t k = Inl er \<longrightarrow> er = KeyNotFound"
    by (simp add: at_lookup[OF assms] split: option.splits)
  have "lookup (HashMap_default :: (string, 'w) HashMap) ''missing'' = None"
    by (simp add: lookup_def entries_def HashMap_default_def)
  then have 4: "at_hm h' (HashMap_default :: (string, 'w) HashMap) ''missing'' = Inl KeyNotFound"
    by (simp add: at_lookup[OF well_formed_default])
  from 1 2 3 4 show ?thesis by blast
qed

theorem at_lookup_only_witness:
  "well_formed nat_hash sample \<and> at_hm nat_hash sample 5 = Inr 50 \<and>
   at_hm nat_hash sample 7 = Inl KeyNotFound"
proof -
  have 5: "Entry 5 50 \<in> set (entries sample)" by (simp add: sample_def entries_def)
  have 7: "7 \<notin> key ` set (entries sample)" by (simp add: sample_def entries_def)
  from at_lookup_only[OF well_formed_sample, of 5] at_lookup_only[OF well_formed_sample, of 7] 5 7 well_formed_sample
  show ?thesis by blast
qed

lemma refile_all_empty:
  "\<forall>b \<in> set bs. b = [] \<Longrightarrow> refile_all h t bs = Inr t"
  by (induction bs) auto

lemma entries_empty_buckets: "entries t = [] \<Longrightarrow> \<forall>b \<in> set (buckets t). b = []"
  by (simp add: entries_def)

section \<open>\<open>rehash(0)\<close> on an empty table\<close>

text \<open>
  Claim C10. \<open>rehash\<close> does not keep the bucket count positive. On a well-formed
  table without entries (and a threshold other than zero, so that the quotient
  \<open>0 / max_load_factor\<close> is \<open>0\<close>) the call \<open>rehash(0)\<close> succeeds, empties the bucket
  array and sets \<open>bucket_count\<close> to 0. After it \<open>insert\<close>, \<open>find\<close>, \<open>at\<close>,
  \<open>erase\<close> and \<open>contains\<close> all reach the remainder by zero of \<open>hash_func\<close>, for
  every key.
\<close>

theorem rehash_zero_loses_buckets:
  assumes "well_formed h t" and "entry_count t = 0" and "max_load_factor t \<noteq> 0"
  shows "\<exists>t'. rehash h t 0 = Inr t' \<and> bucket_count t' = 0 \<and> buckets t' = [] \<and>
           (\<forall>k v. insert_hm h t' k v = Inl RemainderByZero) \<and>
           (\<forall>k this. find_hm this h t' k = Inl RemainderByZero) \<and>
           (\<forall>k. at_hm h t' k = Inl RemainderByZero) \<and>
           (\<forall>k. erase h t' k = Inl RemainderByZero) \<and>
           (\<forall>k. contains h t' k = Inl RemainderByZero)"
proof -
  let ?t' = "t\<lparr>buckets := [], bucket_count := 0\<rparr>"
  from assms have e: "entries t = []" and bc: "0 < bucket_count t" by (simp_all add: well_formed_def)
  have mr: "min_required t = Inr 0"
    using assms(2,3) by (simp add: min_required_def size_t_range_def)
  have r: "rehash h t 0 = Inr ?t'"
    using bc by (simp add: rehash_def mr refile_all_empty[OF entries_empty_buckets[OF e]])
  have hf: "\<And>k. hash_func h ?t' k = Inl RemainderByZero" by (simp add: hash_func_def)
  have fe: "\<And>k. find_entry h ?t' k = Inl RemainderByZero" by (simp add: find_entry_def hf)
  show ?thesis
    by (rule exI[of _ ?t'])
       (simp add: r insert_hm_def find_hm_def at_hm_def erase_def contains_def hf fe)
qed

theorem rehash_zero_loses_buckets_witness:
  "well_formed nat_hash (HashMap_default :: (nat, nat) HashMap) \<and>
   entry_count (HashMap_default :: (nat, nat) HashMap) = 0 \<and>
   max_load_factor (HashMap_default :: (nat, nat) HashMap) \<noteq> 0 \<and>
   (\<exists>t'. rehash nat_hash (HashMap_default :: (nat, nat) HashMap) 0 = Inr t' \<and> bucket_count t' = 0 \<and>
      insert_hm nat_hash t' 1 1 = Inl RemainderByZero)"
proof -
  have e: "entry_count (HashMap_default :: (nat, nat) HashMap) = 0"
    and m: "max_load_factor (HashMap_default :: (nat, nat) HashMap) \<noteq> 0"
    by (simp_all add: HashMap_default_def)
  from rehash_zero_loses_buckets[OF well_formed_default e m, of nat_hash] well_formed_default e m
  show ?thesis by blast
qed

lemma copy_buckets_take_drop:
  "i + n \<le> length src \<Longrightarrow> copy_buckets src i n = Inr (take n (drop i src))"
proof (induction n arbitrary: i)
  case 0
  then show ?case by simp
next
  case (Suc n)
  then have "copy_buckets src (Suc i) n = Inr (take n (drop (Suc i) src))" by simp
  moreover have "i < length src" using Suc.prems by simp
  ultimately show ?case
    by (simp add: Cons_nth_drop_Suc[symmetric])
qed

section \<open>Copying and \<open>max_load_factor\<close>\<close>

text \<open>
  Claim C9. Copying does not transfer \<open>max_load_factor\<close>. For a source whose
  bucket array has \<open>bucket_count\<close> buckets, the copy constructor yields the
  source's buckets and counters with the default threshold \<open>0.75\<close>, and copy
  assignment yields them with the target's previous threshold. Whenever either
  returns a table at all, its threshold is \<open>0.75\<close>, respectively the one the
  target had.
\<close>

theorem copy_keeps_no_max_load_factor:
  assumes "length (buckets other) = bucket_count other"
  shows "HashMap_copy other =
           Inr \<lparr>buckets = buckets other, bucket_count = bucket_count other,
                entry_count = entry_count other, max_load_factor = 3 / 4\<rparr> \<and>
         copy_assign False this other =
           Inr (this\<lparr>buckets := buckets other, bucket_count := bucket_count other,
                     entry_count := entry_count other\<rparr>) \<and>
         (\<forall>c. HashMap_copy other = Inr c \<longrightarrow> max_load_factor c = 3 / 4) \<and>
         (\<forall>self c. copy_assign self this other = Inr c \<longrightarrow> max_load_factor c = max_load_factor this)"
proof -
  have cb: "copy_buckets (buckets other) 0 (bucket_count other) = Inr (buckets other)"
    using copy_buckets_take_drop[of 0 "bucket_count other" "buckets other"] assms by simp
  show ?thesis
    by (auto simp: HashMap_copy_def copy_assign_def cb clear_def)
qed

theorem copy_keeps_no_max_load_factor_witness:
  "length (buckets (sample\<lparr>max_load_factor := 2\<rparr>)) = bucket_count (sample\<lparr>max_load_factor := 2\<rparr>) \<and>
   HashMap_copy (sample\<lparr>max_load_factor := 2\<rparr>) = Inr sample \<and>
   copy_assign False (HashMap_default\<lparr>max_load_factor := 5\<rparr>) (sample\<lparr>max_load_factor := 2\<rparr>)
     = Inr (sample\<lparr>max_load_factor := 5\<rparr>)"
proof -
  have l: "length (buckets (sample\<lparr>max_load_factor := 2\<rparr>)) = bucket_count (sample\<lparr>max_load_factor := 2\<rparr>)"
    by (simp add: sample_def)
  from copy_keeps_no_max_load_factor[OF l, of "HashMap_default\<lparr>max_load_factor := 5\<rparr>"] l
  show ?thesis by (simp add: sample_def HashMap_default_def)
qed

lemma distinct_add_mset:
  assumes "mset xs = add_mset a (mset ys)" and "distinct (map f xs)"
  shows "distinct (map f ys) \<and> f a \<notin> f ` set ys"
proof -
  have "mset (map f xs) = mset (map f (a # ys))" using assms(1) by simp
  then have "distinct (map f (a # ys))" using assms(2) by (metis mset_eq_imp_distinct_iff)
  then show ?thesis by simp
qed

lemma find_pos_present:
  assumes "well_formed h t" and "k \<in> key ` set (entries t)"
  shows "\<exists>i. find_pos (buckets t ! (h k mod bucket_count t)) k = Some i"
proof -
  from assms(2) have "lookup t k \<noteq> None" by (simp add: lookup_None_iff)
  then show ?thesis
    by (simp add: well_formed_lookup_bucket[OF assms(1)] find_pos_map_of)
qed

lemma find_pos_absent:
  assumes "well_formed h t" and "k \<notin> key ` set (entries t)"
  shows "find_pos (buckets t ! (h k mod bucket_count t)) k = None"
proof -
  from assms(2) have "lookup t k = None" by (simp add: lookup_None_iff)
  then show ?thesis
    by (simp add: well_formed_lookup_bucket[OF assms(1)] find_pos_map_of)
qed

text \<open>Removing the entry at position \<open>i\<close> of bucket \<open>j\<close>, as both \<open>erase\<close> functions do.\<close>

lemma remove_slot:
  assumes w: "well_formed h t" and j: "j < bucket_count t" and i: "i < length (buckets t ! j)"
  defines "t' \<equiv> t\<lparr>buckets := (buckets t)[j := swap_remove (buckets t ! j) i],
                    entry_count := (entry_count t + size_t_range - 1) mod size_t_range\<rparr>"
  shows "well_formed h t'"
    and "mset (entries t) = add_mset (buckets t ! j ! i) (mset (entries t'))"
    and "entry_count t' + 1 = entry_count t"
    and "key (buckets t ! j ! i) \<notin> key ` set (entries t')"
proof -
  let ?b = "buckets t ! j" and ?e = "buckets t ! j ! i"
  from w have len: "length (buckets t) = bucket_count t" and bc: "0 < bucket_count t"
    and ecr: "entry_count t < size_t_range" and bcr: "bucket_count t < size_t_range"
    and ec: "entry_count t = size (mset (entries t))"
    and pl: "\<forall>i<bucket_count t. \<forall>e \<in> set (buckets t ! i). h (key e) mod bucket_count t = i"
    and d: "distinct (map key (entries t))"
    by (simp_all add: well_formed_iff)
  have jl: "j < length (buckets t)" using j len by simp
  have "mset (entries t') + mset ?b = mset (entries t) + mset (swap_remove ?b i)"
    unfolding entries_def t'_def using mset_concat_update[OF jl] by simp
  then have "mset (entries t') + add_mset ?e (mset (swap_remove ?b i))
      = mset (entries t) + mset (swap_remove ?b i)"
    by (simp only: mset_swap_remove[OF i])
  then show m: "mset (entries t) = add_mset ?e (mset (entries t'))"
    by (simp add: ac_simps)
  then have sz: "size (mset (entries t)) = Suc (size (mset (entries t')))" by simp
  with ec have pos: "0 < entry_count t" by simp
  have ec': "entry_count t' = entry_count t - 1"
    unfolding t'_def using pos ecr by (simp add: mod_if)
  with pos show "entry_count t' + 1 = entry_count t" by simp
  from distinct_add_mset[OF m d] show "key ?e \<notin> key ` set (entries t')" by simp
  have pl': "\<forall>i<bucket_count t'. \<forall>e \<in> set (buckets t' ! i). h (key e) mod bucket_count t' = i"
  proof (intro allI impI ballI)
    fix i' e assume i': "i' < bucket_count t'" and e: "e \<in> set (buckets t' ! i')"
    have bc': "bucket_count t' = bucket_count t" by (simp add: t'_def)
    show "h (key e) mod bucket_count t' = i'"
    proof (cases "i' = j")
      case True
      with e jl have "e \<in> set (swap_remove ?b i)" by (simp add: t'_def)
      with set_swap_remove[OF i] have "e \<in> set ?b" by auto
      with pl j True bc' show ?thesis by simp
    next
      case False
      with e have "e \<in> set (buckets t ! i')" by (simp add: t'_def)
      with pl i' bc' show ?thesis by simp
    qed
  qed
  show "well_formed h t'"
    unfolding well_formed_iff
  proof (intro conjI)
    show "length (buckets t') = bucket_count t'" using len by (simp add: t'_def)
    show "0 < bucket_count t'" using bc by (simp add: t'_def)
    show "bucket_count t' < size_t_range" using bcr by (simp add: t'_def)
    show "entry_count t' < size_t_range" using ec' ecr by simp
    show "entry_count t' = size (mset (entries t'))" using ec' ec sz by simp
    show "\<forall>i<bucket_count t'. \<forall>e \<in> set (buckets t' ! i). h (key e) mod bucket_count t' = i"
      by (rule pl')
    show "distinct (map key (entries t'))" using distinct_add_mset[OF m d] by simp
  qed
qed

section \<open>Erasing by key\<close>

text \<open>
  Claim C3. On a well-formed table \<open>erase(k)\<close> returns 0 and the unchanged table
  when no entry has the key \<open>k\<close>. When one has, it returns 1 and a table that has
  lost exactly that entry: the entries before are those after plus one entry with
  key \<open>k\<close>, \<open>entry_count\<close> is one less, \<open>contains(k)\<close> is false, and the table is
  still well-formed with the same bucket count and threshold.
\<close>

theorem erase_key:
  assumes "well_formed h t"
  shows "(k \<notin> key ` set (entries t) \<longrightarrow> erase h t k = Inr (t, 0)) \<and>
         (k \<in> key ` set (entries t) \<longrightarrow>
            (\<exists>t' e. erase h t k = Inr (t', 1) \<and> key e = k \<and>
               mset (entries t) = add_mset e (mset (entries t')) \<and>
               entry_count t' + 1 = entry_count t \<and>
               contains h t' k = Inr False \<and> well_formed h t' \<and>
               bucket_count t' = bucket_count t \<and> max_load_factor t' = max_load_factor t))"
proof (intro conjI impI)
  let ?j = "h k mod bucket_count t"
  from assms have jb: "?j < bucket_count t" by (simp add: well_formed_def)
  {
    assume "k \<notin> key ` set (entries t)"
    from find_pos_absent[OF assms this] show "erase h t k = Inr (t, 0)"
      by (simp add: erase_def well_formed_hash_func[OF assms] well_formed_bucket_at[OF assms jb])
  }
  {
    assume "k \<in> key ` set (entries t)"
    from find_pos_present[OF assms this] obtain i where fp: "find_pos (buckets t ! ?j) k = Some i"
      by blast
    from find_pos_Some[OF fp] have il: "i < length (buckets t ! ?j)" and ke: "key (buckets t ! ?j ! i) = k"
      by simp_all
    define t' where "t' = t\<lparr>buckets := (buckets t)[?j := swap_remove (buckets t ! ?j) i],
                  entry_count := (entry_count t + size_t_range - 1) mod size_t_range\<rparr>"
    have er: "erase h t k = Inr (t', 1)"
      by (simp add: erase_def well_formed_hash_func[OF assms] well_formed_bucket_at[OF assms jb] fp t'_def)
    note rs = remove_slot[OF assms jb il, folded t'_def]
    from rs(4) ke have "lookup t' k = None" by (simp add: lookup_None_iff)
    then have c: "contains h t' k = Inr False"
      by (simp add: contains_lookup[OF rs(1)])
    have same: "bucket_count t' = bucket_count t" "max_load_factor t' = max_load_factor t"
      by (simp_all add: t'_def)
    from er rs ke c same
    show "\<exists>t' e. erase h t k = Inr (t', 1) \<and> key e = k \<and>
               mset (entries t) = add_mset e (mset (entries t')) \<and>
               entry_count t' + 1 = entry_count t \<and>
               contains h t' k = Inr False \<and> well_formed h t' \<and>
               bucket_count t' = bucket_count t \<and> max_load_factor t' = max_load_factor t"
      by (intro exI[of _ t'] exI[of _ "buckets t ! ?j ! i"]) simp
  }
qed

theorem erase_key_witness:
  "well_formed nat_hash sample \<and> erase nat_hash sample 7 = Inr (sample, 0) \<and>
   erase nat_hash sample 1 =
     Inr (\<lparr>buckets = [[Entry 4 40], [Entry 5 50], [], []],
           bucket_count = 4, entry_count = 2, max_load_factor = 3 / 4\<rparr>, 1)"
proof -
  have 7: "7 \<notin> key ` set (entries sample)" by (simp add: sample_def entries_def)
  have "erase nat_hash sample 1 =
     Inr (\<lparr>buckets = [[Entry 4 40], [Entry 5 50], [], []],
           bucket_count = 4, entry_count = 2, max_load_factor = 3 / 4\<rparr>, 1)"
    by (simp add: erase_def hash_func_def bucket_at_def sample_def nat_hash_def swap_remove_def
        size_t_range_def)
  with erase_key[OF well_formed_sample, of 7] 7 well_formed_sample show ?thesis by simp
qed

section \<open>Re-filing\<close>

lemma refile_bucket_eq:
  assumes "length (buckets t) = bucket_count t" and "0 < bucket_count t"
  shows "refile_bucket h t b =
           Inr (t\<lparr>buckets := map (\<lambda>j. buckets t ! j @ filter (\<lambda>e. h (key e) mod bucket_count t = j) b)
                                 [0..<bucket_count t]\<rparr>)"
  using assms
proof (induction b arbitrary: t)
  case Nil
  have "map (\<lambda>j. buckets t ! j) [0..<length (buckets t)] = buckets t" by (rule map_nth)
  with Nil show ?case by simp
next
  case (Cons e es)
  let ?n = "bucket_count t" and ?bs = "buckets t"
  let ?i = "h (key e) mod ?n"
  let ?t1 = "t\<lparr>buckets := ?bs[?i := ?bs ! ?i @ [e]]\<rparr>"
  have i: "?i < length ?bs" using Cons.prems by simp
  have "refile_bucket h ?t1 es =
          Inr (?t1\<lparr>buckets := map (\<lambda>j. buckets ?t1 ! j @ filter (\<lambda>e. h (key e) mod bucket_count ?t1 = j) es)
                                  [0..<bucket_count ?t1]\<rparr>)"
    by (rule Cons.IH) (use Cons.prems in simp_all)
  moreover have "map (\<lambda>j. buckets ?t1 ! j @ filter (\<lambda>e. h (key e) mod bucket_count ?t1 = j) es) [0..<bucket_count ?t1]
      = map (\<lambda>j. ?bs ! j @ filter (\<lambda>e. h (key e) mod ?n = j) (e # es)) [0..<?n]"
  proof (rule map_cong[OF _])
    show "[0..<bucket_count ?t1] = [0..<?n]" by simp
    fix j assume "j \<in> set [0..<?n]"
    then have "j < length ?bs" using Cons.prems by simp
    then show "buckets ?t1 ! j @ filter (\<lambda>e. h (key e) mod bucket_count ?t1 = j) es
        = ?bs ! j @ filter (\<lambda>e. h (key e) mod ?n = j) (e # es)"
      using i by (cases "j = ?i") simp_all
  qed
  ultimately show ?case
    using i Cons.prems by (simp add: hash_func_def)
qed

lemma refile_all_eq:
  assumes "length (buckets t) = bucket_count t" and "0 < bucket_count t"
  shows "refile_all h t bss =
           Inr (t\<lparr>buckets := map (\<lambda>j. buckets t ! j @ filter (\<lambda>e. h (key e) mod bucket_count t = j) (concat bss))
                                 [0..<bucket_count t]\<rparr>)"
  using assms
proof (induction bss arbitrary: t)
  case Nil
  have "map (\<lambda>j. buckets t ! j) [0..<length (buckets t)] = buckets t" by (rule map_nth)
  with Nil show ?case by simp
next
  case (Cons b bss)
  let ?n = "bucket_count t"
  let ?t1 = "t\<lparr>buckets := map (\<lambda>j. buckets t ! j @ filter (\<lambda>e. h (key e) mod ?n = j) b) [0..<?n]\<rparr>"
  have 1: "refile_bucket h t b = Inr ?t1" by (rule refile_bucket_eq[OF Cons.prems])
  have "refile_all h ?t1 bss =
          Inr (?t1\<lparr>buckets := map (\<lambda>j. buckets ?t1 ! j @ filter (\<lambda>e. h (key e) mod bucket_count ?t1 = j) (concat bss))
                                  [0..<bucket_count ?t1]\<rparr>)"
    by (rule Cons.IH) (use Cons.prems in simp_all)
  moreover have "map (\<lambda>j. buckets ?t1 ! j @ filter (\<lambda>e. h (key e) mod bucket_count ?t1 = j) (concat bss)) [0..<bucket_count ?t1]
      = map (\<lambda>j. buckets t ! j @ filter (\<lambda>e. h (key e) mod ?n = j) (concat (b # bss))) [0..<?n]"
    by (rule map_cong) simp_all
  ultimately show ?case using 1 by simp
qed

text \<open>Filing a list of entries by hash into \<open>n\<close> buckets keeps every entry exactly once.\<close>

lemma mset_filter_split:
  "(\<And>x. \<not> (P x \<and> Q x)) \<Longrightarrow> mset (filter P xs) + mset (filter Q xs) = mset (filter (\<lambda>x. P x \<or> Q x) xs)"
  by (induction xs) auto

lemma mset_concat_filters:
  "mset (concat (map (\<lambda>j. filter (\<lambda>x. f x = j) xs) [0..<n])) = mset (filter (\<lambda>x. f x < n) xs)"
proof (induction n)
  case 0
  then show ?case by simp
next
  case (Suc n)
  have "mset (filter (\<lambda>x. f x < n) xs) + mset (filter (\<lambda>x. f x = n) xs)
      = mset (filter (\<lambda>x. f x < n \<or> f x = n) xs)"
    by (rule mset_filter_split) simp
  also have "(\<lambda>x. f x < n \<or> f x = n) = (\<lambda>x. f x < Suc n)" by (auto simp: less_Suc_eq)
  finally show ?case using Suc by simp
qed

lemma mset_refiled:
  assumes "0 < n"
  shows "mset (concat (map (\<lambda>j. filter (\<lambda>e. h (key e) mod n = j) es) [0..<n])) = mset es"
  using mset_concat_filters[of "\<lambda>e. h (key e) mod n" es n] assms by simp

lemma min_required_pos:
  assumes "0 < max_load_factor t"
  shows "min_required t =
           (if \<lceil>double_quotient (entry_count t) (max_load_factor t)\<rceil> < int size_t_range
            then Inr (nat \<lceil>double_quotient (entry_count t) (max_load_factor t)\<rceil>) else Inl CastOutOfRange)"
proof -
  have "0 \<le> double_quotient (entry_count t) (max_load_factor t)" using assms by (rule double_quotient_nonneg)
  then have "0 \<le> \<lceil>double_quotient (entry_count t) (max_load_factor t)\<rceil>" by (metis ceiling_mono ceiling_zero)
  with assms show ?thesis by (simp add: min_required_def Let_def)
qed

lemma rehash_eq:
  assumes len: "length (buckets t) = bucket_count t"
    and mr: "min_required t = Inr mr"
    and n: "n = (if cnt < mr then mr else cnt)"
    and ne: "n \<noteq> bucket_count t"
    and pos: "0 < n \<or> entries t = []"
  shows "rehash h t cnt =
           Inr (t\<lparr>buckets := map (\<lambda>j. filter (\<lambda>e. h (key e) mod n = j) (entries t)) [0..<n],
                   bucket_count := n\<rparr>)"
proof (cases "0 < n")
  case True
  let ?t0 = "t\<lparr>buckets := replicate n [], bucket_count := n\<rparr>"
  have "refile_all h ?t0 (buckets t) =
          Inr (?t0\<lparr>buckets := map (\<lambda>j. buckets ?t0 ! j @ filter (\<lambda>e. h (key e) mod bucket_count ?t0 = j) (concat (buckets t)))
                                  [0..<bucket_count ?t0]\<rparr>)"
    by (rule refile_all_eq) (use True in simp_all)
  moreover have "map (\<lambda>j. buckets ?t0 ! j @ filter (\<lambda>e. h (key e) mod bucket_count ?t0 = j) (concat (buckets t))) [0..<bucket_count ?t0]
      = map (\<lambda>j. filter (\<lambda>e. h (key e) mod n = j) (entries t)) [0..<n]"
    by (rule map_cong) (simp_all add: entries_def)
  ultimately show ?thesis
    using ne n by (simp add: rehash_def mr Let_def)
next
  case False
  with pos have e: "entries t = []" and n0: "n = 0" by simp_all
  from ne n n0 show ?thesis
    by (simp add: rehash_def mr Let_def refile_all_empty[OF entries_empty_buckets[OF e]])
qed

lemma rehash_noop:
  assumes "min_required t = Inr mr" and "(if cnt < mr then mr else cnt) = bucket_count t"
  shows "rehash h t cnt = Inr t"
  using assms by (simp add: rehash_def Let_def)

lemma well_formed_refiled:
  assumes w: "well_formed h t" and n: "0 < n" "n < size_t_range"
  defines "t' \<equiv> t\<lparr>buckets := map (\<lambda>j. filter (\<lambda>e. h (key e) mod n = j) (entries t)) [0..<n],
                    bucket_count := n\<rparr>"
  shows "well_formed h t'" and "mset (entries t') = mset (entries t)"
proof -
  show m: "mset (entries t') = mset (entries t)"
    unfolding t'_def entries_def using mset_refiled[OF n(1), of h "concat (buckets t)"] by simp
  from w have ecr: "entry_count t < size_t_range"
    and ec: "entry_count t = size (mset (entries t))"
    and d: "distinct (map key (entries t))"
    by (simp_all add: well_formed_iff)
  have "mset (map key (entries t')) = mset (map key (entries t))" using m by simp
  then have d': "distinct (map key (entries t'))" using d by (metis mset_eq_imp_distinct_iff)
  show "well_formed h t'"
    unfolding well_formed_iff
  proof (intro conjI)
    show "length (buckets t') = bucket_count t'" by (simp add: t'_def)
    show "0 < bucket_count t'" using n by (simp add: t'_def)
    show "bucket_count t' < size_t_range" using n by (simp add: t'_def)
    show "entry_count t' < size_t_range" using ecr by (simp add: t'_def)
    show "entry_count t' = size (mset (entries t'))" using ec m by (simp add: t'_def)
    show "\<forall>i<bucket_count t'. \<forall>e \<in> set (buckets t' ! i). h (key e) mod bucket_count t' = i"
      by (simp add: t'_def)
    show "distinct (map key (entries t'))" by (rule d')
  qed
qed

lemma rehash_total:
  assumes w: "well_formed h t" and mp: "0 < max_load_factor t" and cr: "cnt < size_t_range"
    and c: "\<lceil>double_quotient (entry_count t) (max_load_factor t)\<rceil> < int size_t_range"
  defines "n \<equiv> max cnt (nat \<lceil>double_quotient (entry_count t) (max_load_factor t)\<rceil>)"
  shows "rehash h t cnt =
           Inr (if n = bucket_count t then t
                else t\<lparr>buckets := map (\<lambda>j. filter (\<lambda>e. h (key e) mod n = j) (entries t)) [0..<n],
                        bucket_count := n\<rparr>)"
    and "n < size_t_range"
    and "n = 0 \<Longrightarrow> entries t = []"
proof -
  let ?x = "\<lceil>double_quotient (entry_count t) (max_load_factor t)\<rceil>"
  have mr: "min_required t = Inr (nat ?x)" using c by (simp add: min_required_pos[OF mp])
  have n': "n = (if cnt < nat ?x then nat ?x else cnt)" by (simp add: n_def max_def)
  have x0: "0 \<le> ?x"
  proof -
    have "0 \<le> double_quotient (entry_count t) (max_load_factor t)" using mp by (rule double_quotient_nonneg)
    then show ?thesis by (metis ceiling_mono ceiling_zero)
  qed
  with c have "nat ?x < size_t_range" by (simp add: nat_less_iff)
  with cr show nr: "n < size_t_range" by (simp add: n_def)
  from w have len: "length (buckets t) = bucket_count t" and ec: "entry_count t = length (entries t)"
    by (simp_all add: well_formed_def)
  show e0: "entries t = []" if "n = 0"
  proof -
    from that have "nat ?x = 0" by (simp add: n_def)
    with x0 have "?x \<le> 0" by simp
    then have "double_quotient (entry_count t) (max_load_factor t) \<le> 0" by (simp only: ceiling_le_zero)
    with double_quotient_pos[OF _ mp, of "entry_count t"] have "entry_count t = 0" by (cases "entry_count t = 0") simp_all
    with ec show ?thesis by simp
  qed
  show "rehash h t cnt =
           Inr (if n = bucket_count t then t
                else t\<lparr>buckets := map (\<lambda>j. filter (\<lambda>e. h (key e) mod n = j) (entries t)) [0..<n],
                        bucket_count := n\<rparr>)"
  proof (cases "n = bucket_count t")
    case True
    with rehash_noop[OF mr, of cnt h] n' show ?thesis by simp
  next
    case False
    have "0 < n \<or> entries t = []" using e0 by auto
    from rehash_eq[OF len mr n' False this, of h] False show ?thesis by simp
  qed
qed

section \<open>Insertion\<close>

lemma map_key_concat_update:
  assumes "j < length bs" and "map key b' = map key (bs ! j)"
  shows "map key (concat (bs[j := b'])) = map key (concat bs)"
proof -
  have "map (map key) (bs[j := b']) = (map (map key) bs)[j := map key (bs ! j)]"
    using assms by (simp add: map_update)
  also have "\<dots> = map (map key) bs"
    using assms(1) by (metis length_map list_update_id nth_map)
  finally show ?thesis by (simp add: map_concat)
qed

text \<open>The branch of \<open>insert\<close> for a key that is present: the value is overwritten in its slot.\<close>

lemma insert_present:
  fixes v :: 'v
  assumes w: "well_formed h t" and fp: "find_pos (buckets t ! (h k mod bucket_count t)) k = Some i"
  defines "j \<equiv> h k mod bucket_count t"
  defines "t' \<equiv> t\<lparr>buckets := (buckets t)[j := (buckets t ! j)[i := Entry k v]]\<rparr>"
  shows "insert_hm h t k v = Inr t'" and "well_formed h t'" and "buckets t' ! j ! i = Entry k v"
    and "map key (entries t') = map key (entries t)"
    and "\<forall>e \<in> set (entries t). key e \<noteq> k \<longrightarrow> e \<in> set (entries t')"
proof -
  let ?b = "buckets t ! j"
  from w have len: "length (buckets t) = bucket_count t" and bc: "0 < bucket_count t"
    and pl: "\<forall>i<bucket_count t. \<forall>e \<in> set (buckets t ! i). h (key e) mod bucket_count t = i"
    by (simp_all add: well_formed_iff)
  have jl: "j < length (buckets t)" and jb: "j < bucket_count t" using len bc by (simp_all add: j_def)
  from find_pos_Some[OF fp] have il: "i < length ?b" and ke: "key (?b ! i) = k"
    by (simp_all add: j_def)
  show "insert_hm h t k v = Inr t'"
    using fp ke by (simp add: insert_hm_def well_formed_find_entry[OF w] t'_def j_def)
  show bi: "buckets t' ! j ! i = Entry k v" using jl il by (simp add: t'_def)
  have mk: "map key (?b[i := Entry k v]) = map key ?b"
    using il ke by (simp add: map_update) (metis length_map list_update_id nth_map)
  show keys: "map key (entries t') = map key (entries t)"
    unfolding entries_def t'_def using map_key_concat_update[OF jl mk] by simp
  then have "length (map key (entries t')) = length (map key (entries t))" by simp
  then have ln: "length (entries t') = length (entries t)" by simp
  have pl': "\<forall>i'<bucket_count t'. \<forall>e \<in> set (buckets t' ! i'). h (key e) mod bucket_count t' = i'"
  proof (intro allI impI ballI)
    fix i' e assume i': "i' < bucket_count t'" and e: "e \<in> set (buckets t' ! i')"
    show "h (key e) mod bucket_count t' = i'"
    proof (cases "i' = j")
      case True
      with e jl have "e \<in> set (?b[i := Entry k v])" by (simp add: t'_def)
      then have "e = Entry k v \<or> e \<in> set ?b" using set_update_subset_insert[of ?b i "Entry k v"] by auto
      then show ?thesis
      proof
        assume "e = Entry k v"
        then show ?thesis using True by (simp add: t'_def j_def)
      next
        assume "e \<in> set ?b"
        with pl jb True show ?thesis by (simp add: t'_def)
      qed
    next
      case False
      with e have "e \<in> set (buckets t ! i')" by (simp add: t'_def)
      with pl i' show ?thesis by (simp add: t'_def)
    qed
  qed
  show "well_formed h t'"
    unfolding well_formed_def placed_iff
  proof (intro conjI)
    show "length (buckets t') = bucket_count t'" using len by (simp add: t'_def)
    show "0 < bucket_count t'" using bc by (simp add: t'_def)
    show "bucket_count t' < size_t_range" using w by (simp add: t'_def well_formed_def)
    show "entry_count t' < size_t_range" using w by (simp add: t'_def well_formed_def)
    show "entry_count t' = length (entries t')" using w ln by (simp add: t'_def well_formed_def)
    show "\<forall>i<length (buckets t'). \<forall>e \<in> set (buckets t' ! i). h (key e) mod bucket_count t' = i"
      using pl' len by (simp add: t'_def)
    show "distinct (map key (entries t'))" using w keys by (simp add: well_formed_def)
  qed
  show "\<forall>e \<in> set (entries t). key e \<noteq> k \<longrightarrow> e \<in> set (entries t')"
  proof (intro ballI impI)
    fix e assume e: "e \<in> set (entries t)" and nk: "key e \<noteq> k"
    then obtain b where b: "b \<in> set (buckets t)" "e \<in> set b" by (auto simp: entries_def)
    then obtain j' where j': "j' < length (buckets t)" "buckets t ! j' = b" by (metis in_set_conv_nth)
    show "e \<in> set (entries t')"
    proof (cases "j' = j")
      case False
      with j' have "buckets t' ! j' = b" by (simp add: t'_def)
      moreover have "j' < length (buckets t')" using j' by (simp add: t'_def)
      ultimately have "b \<in> set (buckets t')" by (metis nth_mem)
      with b(2) show ?thesis by (auto simp: entries_def)
    next
      case True
      with b j' obtain i' where i': "i' < length ?b" "?b ! i' = e" by (metis in_set_conv_nth)
      with nk ke have "i' \<noteq> i" by auto
      with i' have "(?b[i := Entry k v]) ! i' = e" by simp
      moreover have "i' < length (?b[i := Entry k v])" using i' by simp
      ultimately have "e \<in> set (?b[i := Entry k v])" by (metis nth_mem)
      moreover have "buckets t' ! j = ?b[i := Entry k v]" using jl by (simp add: t'_def)
      moreover have "j < length (buckets t')" using jl by (simp add: t'_def)
      ultimately have "\<exists>b' \<in> set (buckets t'). e \<in> set b'" by (metis nth_mem)
      then show ?thesis by (auto simp: entries_def)
    qed
  qed
qed

text \<open>The first half of the other branch: the new entry is appended and counted.\<close>

lemma append_entry:
  fixes v :: 'v
  assumes w: "well_formed h t" and ab: "k \<notin> key ` set (entries t)" and r: "entry_count t + 1 < size_t_range"
  defines "j \<equiv> h k mod bucket_count t"
  defines "t1 \<equiv> t\<lparr>buckets := (buckets t)[j := buckets t ! j @ [Entry k v]],
                    entry_count := (entry_count t + 1) mod size_t_range\<rparr>"
  shows "well_formed h t1" and "mset (entries t1) = add_mset (Entry k v) (mset (entries t))"
    and "entry_count t1 = entry_count t + 1"
proof -
  from w have len: "length (buckets t) = bucket_count t" and bc: "0 < bucket_count t"
    and ec: "entry_count t = size (mset (entries t))"
    and pl: "\<forall>i<bucket_count t. \<forall>e \<in> set (buckets t ! i). h (key e) mod bucket_count t = i"
    and d: "distinct (map key (entries t))"
    by (simp_all add: well_formed_iff)
  have jl: "j < length (buckets t)" and jb: "j < bucket_count t" using len bc by (simp_all add: j_def)
  show m: "mset (entries t1) = add_mset (Entry k v) (mset (entries t))"
    unfolding entries_def t1_def using mset_concat_append1[OF jl] by simp
  show ec1: "entry_count t1 = entry_count t + 1" using r by (simp add: t1_def)
  have "mset (map key (entries t1)) = mset (map key (Entry k v # entries t))" using m by simp
  moreover have "distinct (map key (Entry k v # entries t))" using d ab by simp
  ultimately have d1: "distinct (map key (entries t1))" by (metis mset_eq_imp_distinct_iff)
  have pl1: "\<forall>i'<bucket_count t1. \<forall>e \<in> set (buckets t1 ! i'). h (key e) mod bucket_count t1 = i'"
  proof (intro allI impI ballI)
    fix i' e assume i': "i' < bucket_count t1" and e: "e \<in> set (buckets t1 ! i')"
    show "h (key e) mod bucket_count t1 = i'"
    proof (cases "i' = j")
      case True
      with e jl have "e = Entry k v \<or> e \<in> set (buckets t ! j)" by (auto simp: t1_def)
      then show ?thesis
      proof
        assume "e = Entry k v"
        then show ?thesis using True by (simp add: t1_def j_def)
      next
        assume "e \<in> set (buckets t ! j)"
        with pl jb True show ?thesis by (simp add: t1_def)
      qed
    next
      case False
      with e have "e \<in> set (buckets t ! i')" by (simp add: t1_def)
      with pl i' show ?thesis by (simp add: t1_def)
    qed
  qed
  show "well_formed h t1"
    unfolding well_formed_iff
  proof (intro conjI)
    show "length (buckets t1) = bucket_count t1" using len by (simp add: t1_def)
    show "0 < bucket_count t1" using bc by (simp add: t1_def)
    show "bucket_count t1 < size_t_range" using w by (simp add: t1_def well_formed_def)
    show "entry_count t1 < size_t_range" using ec1 r by simp
    show "entry_count t1 = size (mset (entries t1))" using ec1 ec m by simp
    show "\<forall>i<bucket_count t1. \<forall>e \<in> set (buckets t1 ! i). h (key e) mod bucket_count t1 = i"
      by (rule pl1)
    show "distinct (map key (entries t1))" by (rule d1)
  qed
qed

lemma at_member:
  assumes "well_formed h t" and "Entry k v \<in> set (entries t)"
  shows "at_hm h t k = Inr v"
proof -
  from assms(1) have "distinct (map key (entries t))" by (simp add: well_formed_def)
  from lookup_Some_iff[OF this] assms(2) have "lookup t k = Some v" by simp
  then show ?thesis by (simp add: at_lookup[OF assms(1)])
qed

lemma insert_present_at:
  assumes w: "well_formed h t" and p: "k \<in> key ` set (entries t)"
  shows "\<exists>t'. insert_hm h t k v = Inr t' \<and> well_formed h t' \<and> at_hm h t' k = Inr v \<and>
           entry_count t' = entry_count t \<and> bucket_count t' = bucket_count t \<and>
           max_load_factor t' = max_load_factor t \<and>
           map key (entries t') = map key (entries t) \<and>
           (\<forall>e \<in> set (entries t). key e \<noteq> k \<longrightarrow> e \<in> set (entries t'))"
proof -
  let ?j = "h k mod bucket_count t"
  from find_pos_present[OF w p] obtain i where fp: "find_pos (buckets t ! ?j) k = Some i" by blast
  define t' where "t' = t\<lparr>buckets := (buckets t)[?j := (buckets t ! ?j)[i := Entry k v]]\<rparr>"
  note ip = insert_present[OF w fp, of v, folded t'_def]
  from w have "?j < length (buckets t)" by (simp add: well_formed_def)
  moreover from find_pos_Some[OF fp] have "i < length (buckets t ! ?j)" by simp
  ultimately have jl: "?j < length (buckets t')" and il: "i < length (buckets t' ! ?j)"
    by (simp_all add: t'_def)
  then have "buckets t' ! ?j ! i \<in> set (buckets t' ! ?j)" and "buckets t' ! ?j \<in> set (buckets t')"
    by (metis nth_mem)+
  with ip(3) have "Entry k v \<in> set (entries t')" by (auto simp: entries_def)
  from at_member[OF ip(2) this] have a: "at_hm h t' k = Inr v" .
  have same: "entry_count t' = entry_count t" "bucket_count t' = bucket_count t"
    "max_load_factor t' = max_load_factor t"
    by (simp_all add: t'_def)
  from ip(1,2,4,5) a same show ?thesis by blast
qed

lemma insert_hm_absent_unfold:
  assumes "find_entry h t k = Inr None" and "hash_func h t k = Inr j" and "j < length (buckets t)"
  shows "insert_hm h t k v =
     (let t1 = t\<lparr>buckets := (buckets t)[j := buckets t ! j @ [Entry k v]],
                  entry_count := (entry_count t + 1) mod size_t_range\<rparr>
      in if fp_gt (load_factor t1) (max_load_factor t1)
         then rehash h t1 ((bucket_count t1 * 2) mod size_t_range)
         else Inr t1)"
  using assms by (simp add: insert_hm_def)

lemma insert_absent:
  assumes w: "well_formed h t" and ab: "k \<notin> key ` set (entries t)"
    and mp: "0 < max_load_factor t"
    and r: "entry_count t + 1 < size_t_range"
    and c: "max_load_factor t < to_float (double_quotient (entry_count t + 1) (to_double (of_nat (bucket_count t)))) \<longrightarrow>
            \<lceil>double_quotient (entry_count t + 1) (max_load_factor t)\<rceil> < int size_t_range"
  shows "\<exists>t'. insert_hm h t k v = Inr t' \<and> well_formed h t' \<and>
           mset (entries t') = add_mset (Entry k v) (mset (entries t)) \<and>
           entry_count t' = entry_count t + 1 \<and>
           max_load_factor t' = max_load_factor t \<and>
           bucket_count t' =
             (if max_load_factor t < to_float (double_quotient (entry_count t + 1) (to_double (of_nat (bucket_count t))))
              then max ((bucket_count t * 2) mod size_t_range)
                       (nat \<lceil>double_quotient (entry_count t + 1) (max_load_factor t)\<rceil>)
              else bucket_count t)"
proof -
  let ?j = "h k mod bucket_count t"
  let ?m = "max_load_factor t"
  let ?lf = "to_float (double_quotient (entry_count t + 1) (to_double (of_nat (bucket_count t))))"
  define t1 where "t1 = t\<lparr>buckets := (buckets t)[?j := buckets t ! ?j @ [Entry k v]],
                          entry_count := (entry_count t + 1) mod size_t_range\<rparr>"
  note ae = append_entry[OF w ab r, of v, folded t1_def]
  from w have bc: "0 < bucket_count t" and jl: "?j < length (buckets t)"
    and bcr: "bucket_count t < size_t_range" by (simp_all add: well_formed_def)
  have fe: "find_entry h t k = Inr None"
    by (simp add: well_formed_find_entry[OF w] find_pos_absent[OF w ab])
  have m1: "max_load_factor t1 = ?m" and b1: "bucket_count t1 = bucket_count t"
    by (simp_all add: t1_def)
  have lf: "load_factor t1 = Finite ?lf"
    using bc by (simp add: load_factor_def b1 ae(3))
  have ins: "insert_hm h t k v =
     (if ?m < ?lf then rehash h t1 ((bucket_count t * 2) mod size_t_range) else Inr t1)"
  proof -
    have "insert_hm h t k v =
       (if fp_gt (load_factor t1) (max_load_factor t1)
         then rehash h t1 ((bucket_count t1 * 2) mod size_t_range)
         else Inr t1)"
      by (simp only: insert_hm_absent_unfold[OF fe well_formed_hash_func[OF w] jl] Let_def t1_def[symmetric])
    then show ?thesis by (simp only: lf m1 b1 fp_gt.simps)
  qed
  show ?thesis
  proof (cases "?m < ?lf")
    case False
    with ins ae m1 b1 show ?thesis by auto
  next
    case True
    let ?x = "\<lceil>double_quotient (entry_count t + 1) ?m\<rceil>"
    let ?cnt = "(bucket_count t * 2) mod size_t_range"
    define n where "n = max ?cnt (nat ?x)"
    from c True have cx: "?x < int size_t_range" by simp
    have "0 < size_t_range" by (simp add: size_t_range_def)
    then have cr: "?cnt < size_t_range" by simp
    have mp1: "0 < max_load_factor t1" using mp by (simp only: m1)
    have c1: "\<lceil>double_quotient (entry_count t1) (max_load_factor t1)\<rceil> < int size_t_range"
      using cx by (simp only: ae(3) m1)
    note rt = rehash_total[OF ae(1) mp1 cr c1, unfolded ae(3) m1, folded n_def]
    have "0 < double_quotient (entry_count t + 1) ?m" by (rule double_quotient_pos[OF _ mp]) simp
    then have "0 < ?x" by (simp add: less_ceiling_iff)
    then have np: "0 < n" by (simp add: n_def less_max_iff_disj)
    show ?thesis
    proof (cases "n = bucket_count t1")
      case True
      with rt(1) have "rehash h t1 ?cnt = Inr t1" by simp
      with ins \<open>?m < ?lf\<close> ae m1 b1 True show ?thesis by (simp add: n_def)
    next
      case False
      define t' where "t' = t1\<lparr>buckets := map (\<lambda>j. filter (\<lambda>e. h (key e) mod n = j) (entries t1)) [0..<n],
                               bucket_count := n\<rparr>"
      have rh: "rehash h t1 ?cnt = Inr t'" using rt(1) False by (simp add: t'_def)
      note wr = well_formed_refiled[OF ae(1) np rt(2), folded t'_def]
      have "entry_count t' = entry_count t + 1" "max_load_factor t' = ?m" "bucket_count t' = n"
        using ae(3) by (simp_all add: t'_def m1)
      with ins \<open>?m < ?lf\<close> rh wr ae(2) show ?thesis by (simp add: n_def)
    qed
  qed
qed

lemma lookup_mset_cong:
  assumes "distinct (map key (entries t))" and "mset (entries t') = mset (entries t)"
  shows "lookup t' = lookup t"
proof -
  let ?f = "\<lambda>e. (key e, val e)"
  have "mset (map key (entries t')) = mset (map key (entries t))" using assms(2) by simp
  then have d': "distinct (map key (entries t'))" using assms(1) by (metis mset_eq_imp_distinct_iff)
  have "set (entries t') = set (entries t)" using assms(2) by (metis set_mset_mset)
  then have "set (map ?f (entries t')) = set (map ?f (entries t))" by simp
  moreover have "distinct (map fst (map ?f (entries t')))" "distinct (map fst (map ?f (entries t)))"
    using d' assms(1) by (simp_all add: comp_def)
  ultimately show ?thesis unfolding lookup_def by (simp only: map_of_inject_set)
qed


lemma at_after_insert_absent:
  assumes "well_formed h t" and "well_formed h t'" and "mset (entries t') = add_mset (Entry k v) (mset (entries t))"
  shows "at_hm h t' k' = (if k' = k then Inr v else at_hm h t k')"
proof (cases "k' = k")
  case True
  have "Entry k v \<in># mset (entries t')" by (simp add: assms(3))
  then have "Entry k v \<in> set (entries t')" by simp
  from at_member[OF assms(2) this] True show ?thesis by simp
next
  case False
  from assms(1,2) have d: "distinct (map key (entries t))" and d': "distinct (map key (entries t'))"
    by (simp_all add: well_formed_def)
  have "set (entries t') = insert (Entry k v) (set (entries t))"
    using assms(3) by (metis set_mset_add_mset_insert set_mset_mset)
  then have "\<And>v'. Entry k' v' \<in> set (entries t') \<longleftrightarrow> Entry k' v' \<in> set (entries t)"
    using False by auto
  then have "lookup t' k' = lookup t k'"
    using lookup_Some_iff[OF d, of k'] lookup_Some_iff[OF d', of k']
    by (metis option.exhaust)
  with False show ?thesis
    by (simp add: at_lookup[OF assms(1)] at_lookup[OF assms(2)])
qed

section \<open>Insert followed by \<open>at\<close>\<close>





section \<open>Rehash keeps the entries\<close>




section \<open>The bucket count \<open>rehash\<close> chooses\<close>






text \<open>
  The new bucket count is not the rounded-up exact quotient. For one entry and
  the \<open>float\<close> threshold \<open>14971449 / 2 ^ 54\<close> the exact quotient is
  \<open>1203250167 + 1 / 14971449\<close>, which rounds up to \<open>1203250168\<close>; the division in
  \<open>double\<close> gives exactly \<open>1203250167\<close>, and \<open>rehash\<close> makes that many buckets.
  The first \<open>insert\<close> into \<open>HashMap(1, f)\<close> with this threshold \<open>f\<close> calls \<open>rehash(2)\<close>
  in this state of the table.
\<close>

lemma unit_load_factor: "to_float (double_quotient 1 (to_double 1)) = 1"
  using nat_is_double[of 1] dyadic_is_float[of 1 0] by (simp add: double_quotient_def)




section \<open>The load factor invariant\<close>

lemma refile_bucket_mlf:
  "refile_bucket h t b = Inr t' \<Longrightarrow> max_load_factor t' = max_load_factor t"
proof (induction b arbitrary: t)
  case Nil
  then show ?case by simp
next
  case (Cons e es)
  then show ?case
    by (fastforce split: sum.splits if_splits)
qed

lemma refile_all_mlf:
  "refile_all h t bs = Inr t' \<Longrightarrow> max_load_factor t' = max_load_factor t"
proof (induction bs arbitrary: t)
  case Nil
  then show ?case by simp
next
  case (Cons b bs)
  then show ?case
    by (auto split: sum.splits dest: refile_bucket_mlf)
qed

lemma rehash_mlf:
  "rehash h t cnt = Inr t' \<Longrightarrow> max_load_factor t' = max_load_factor t"
  by (auto simp: rehash_def Let_def split: sum.splits if_splits dest: refile_all_mlf)

lemma set_max_load_factor_accepts:
  "set_max_load_factor h t ml = Inr t' \<Longrightarrow> max_load_factor t' = ml"
  by (auto simp: set_max_load_factor_def Let_def split: if_splits dest: rehash_mlf)

lemma lookup_after_insert_present:
  assumes w: "well_formed h t" and w': "well_formed h t'" and a: "at_hm h t' k = Inr v"
    and km: "map key (entries t') = map key (entries t)"
    and keep: "\<forall>e \<in> set (entries t). key e \<noteq> k \<longrightarrow> e \<in> set (entries t')"
  shows "lookup t' = (lookup t)(k \<mapsto> v)"
proof (rule ext)
  fix k'
  from w w' have d: "distinct (map key (entries t))" and d': "distinct (map key (entries t'))"
    by (simp_all add: well_formed_def)
  show "lookup t' k' = ((lookup t)(k \<mapsto> v)) k'"
  proof (cases "k' = k")
    case True
    from a have "lookup t' k = Some v" by (simp add: at_lookup[OF w'] split: option.splits)
    with True show ?thesis by simp
  next
    case False
    show ?thesis
    proof (cases "lookup t k'")
      case None
      then have "k' \<notin> set (map key (entries t))" by (simp add: lookup_None_iff)
      then have "k' \<notin> set (map key (entries t'))" using km by simp
      then have "lookup t' k' = None" by (simp add: lookup_None_iff)
      with None False show ?thesis by simp
    next
      case (Some v')
      then have "Entry k' v' \<in> set (entries t)" by (simp add: lookup_Some_iff[OF d])
      with keep False have "Entry k' v' \<in> set (entries t')" by force
      then have "lookup t' k' = Some v'" by (simp add: lookup_Some_iff[OF d'])
      with Some False show ?thesis by simp
    qed
  qed
qed

lemma lookup_after_insert_absent:
  assumes w: "well_formed h t" and w': "well_formed h t'"
    and m: "mset (entries t') = add_mset (Entry k v) (mset (entries t))"
  shows "lookup t' = (lookup t)(k \<mapsto> v)"
proof (rule ext)
  fix k'
  from at_after_insert_absent[OF w w' m, of k']
  show "lookup t' k' = ((lookup t)(k \<mapsto> v)) k'"
    by (auto simp: at_lookup[OF w] at_lookup[OF w'] split: option.splits if_splits)
qed

text \<open>Growth: \<open>rehash\<close> called because the load factor exceeds the threshold.\<close>

lemma grow:
  assumes w: "well_formed h t" and f: "0 < max_load_factor t"
    and ff: "to_float (max_load_factor t) = max_load_factor t"
    and b: "bucket_count t \<le> 2 ^ 53"
    and q: "double_quotient (entry_count t) (max_load_factor t) \<le> 2 ^ 52"
    and ex: "fp_gt (load_factor t) (max_load_factor t)"
  shows "\<exists>t'. rehash h t ((bucket_count t * 2) mod size_t_range) = Inr t' \<and> well_formed h t' \<and>
           mset (entries t') = mset (entries t) \<and> max_load_factor t' = max_load_factor t \<and>
           entry_count t' = entry_count t \<and> bucket_count t' \<le> 2 ^ 53 \<and>
           \<not> fp_gt (load_factor t') (max_load_factor t')"
proof -
  let ?f = "max_load_factor t"
  let ?x = "\<lceil>double_quotient (entry_count t) ?f\<rceil>"
  define a where "a = to_double (of_nat (entry_count t))"
  define bc where "bc = bucket_count t"
  from w have bp: "0 < bc" by (simp add: well_formed_def bc_def)
  have bd: "to_double (of_nat bc) = of_nat bc" unfolding bc_def by (rule nat_is_double[OF b])
  have a0: "0 \<le> a" unfolding a_def by (rule to_double_nonneg) simp
  have qa: "double_quotient (entry_count t) ?f = to_double (a / ?f)"
    by (simp add: double_quotient_def a_def)
  have lf: "load_factor t = Finite (to_float (to_double (a / of_nat bc)))"
    using bp bd by (simp add: load_factor_def double_quotient_def a_def bc_def)
  from ex have "?f < to_float (to_double (a / of_nat bc))" by (simp add: lf)
  then have "?f < a / of_nat bc" by (rule exceeds_exact) (use a0 in simp, rule ff)
  then have "of_nat bc * ?f < a" using bp by (simp add: field_simps)
  then have "of_nat bc < a / ?f" using f by (simp add: field_simps)
  then have "to_double (of_nat bc) \<le> to_double (a / ?f)" by (intro to_double_mono) simp_all
  then have "of_nat bc \<le> double_quotient (entry_count t) ?f" by (simp only: bd qa)
  with q have "(of_nat bc :: rat) \<le> of_nat (2 ^ 52)" by simp
  then have b52: "bc \<le> 2 ^ 52" by (simp only: of_nat_le_iff)
  then have cr: "bc * 2 < size_t_range" by (simp add: size_t_range_def)
  then have cnt: "(bucket_count t * 2) mod size_t_range = bc * 2" by (simp add: bc_def)
  have "double_quotient (entry_count t) ?f \<le> of_int (2 ^ 52)" using q by simp
  then have x52: "?x \<le> 2 ^ 52" by (simp only: ceiling_le_iff)
  have "(2 :: int) ^ 52 < int size_t_range" by (simp add: size_t_range_def)
  with x52 have cx: "?x < int size_t_range" by linarith
  define n where "n = max (bc * 2) (nat ?x)"
  note rt = rehash_total[OF w f cr cx, folded n_def]
  have nb: "bc < n" using bp by (simp add: n_def less_max_iff_disj)
  then have np: "0 < n" by simp
  have "nat ?x \<le> nat (2 ^ 52)" using x52 by (rule nat_mono)
  then have "nat ?x \<le> 2 ^ 52" by simp
  with b52 have n53: "n \<le> 2 ^ 53" by (simp add: n_def)
  have nx: "nat ?x \<le> n" by (simp add: n_def)
  have "?x \<le> int (nat ?x)" by simp
  also have "\<dots> \<le> int n" using nx by (simp only: of_nat_le_iff)
  finally have xn: "\<lceil>to_double (a / ?f)\<rceil> \<le> int n" by (simp only: qa)
  define t' where "t' = t\<lparr>buckets := map (\<lambda>j. filter (\<lambda>e. h (key e) mod n = j) (entries t)) [0..<n],
                           bucket_count := n\<rparr>"
  have "n \<noteq> bucket_count t" using nb by (simp add: bc_def)
  with rt(1) have rh: "rehash h t ((bucket_count t * 2) mod size_t_range) = Inr t'"
    by (simp add: cnt t'_def)
  note wr = well_formed_refiled[OF w np rt(2), folded t'_def]
  have lf': "load_factor t' = Finite (to_float (to_double (a / to_double (of_nat n))))"
    using np by (simp add: load_factor_def double_quotient_def t'_def a_def)
  have m': "max_load_factor t' = ?f" by (simp add: t'_def)
  from growth_restores[OF a0 f ff np n53 xn]
  have "\<not> fp_gt (load_factor t') (max_load_factor t')" by (simp add: lf' m')
  moreover have "entry_count t' = entry_count t" "bucket_count t' \<le> 2 ^ 53"
    using n53 by (simp_all add: t'_def)
  ultimately show ?thesis using rh wr m' by blast
qed

lemma insert_keeps_invariant:
  assumes w: "well_formed h t" and inv: "\<not> fp_gt (load_factor t) (max_load_factor t)"
    and f: "0 < max_load_factor t" and ff: "to_float (max_load_factor t) = max_load_factor t"
    and b: "bucket_count t \<le> 2 ^ 53" and r: "entry_count t + 1 < size_t_range"
    and q: "double_quotient (entry_count t + 1) (max_load_factor t) \<le> 2 ^ 52"
  shows "\<exists>t'. insert_hm h t k v = Inr t' \<and> well_formed h t' \<and>
           \<not> fp_gt (load_factor t') (max_load_factor t') \<and>
           max_load_factor t' = max_load_factor t \<and> bucket_count t' \<le> 2 ^ 53 \<and>
           entry_count t' \<le> entry_count t + 1 \<and> lookup t' = (lookup t)(k \<mapsto> v)"
proof (cases "k \<in> key ` set (entries t)")
  case True
  from insert_present_at[OF w True, of v] obtain t' where
    t': "insert_hm h t k v = Inr t'" "well_formed h t'" "at_hm h t' k = Inr v"
      "entry_count t' = entry_count t" "bucket_count t' = bucket_count t"
      "max_load_factor t' = max_load_factor t"
      "map key (entries t') = map key (entries t)"
      "\<forall>e \<in> set (entries t). key e \<noteq> k \<longrightarrow> e \<in> set (entries t')"
    by blast
  have "load_factor t' = load_factor t" by (simp add: load_factor_def t'(4,5))
  with inv have "\<not> fp_gt (load_factor t') (max_load_factor t')" by (simp add: t'(6))
  moreover note lookup_after_insert_present[OF w t'(2,3,7,8)]
  ultimately show ?thesis using t'(1,2,4,5,6) b by auto
next
  case False
  let ?j = "h k mod bucket_count t"
  define t1 where "t1 = t\<lparr>buckets := (buckets t)[?j := buckets t ! ?j @ [Entry k v]],
                          entry_count := (entry_count t + 1) mod size_t_range\<rparr>"
  note ae = append_entry[OF w False r, of v, folded t1_def]
  from w have jl: "?j < length (buckets t)" by (simp add: well_formed_def)
  have fe: "find_entry h t k = Inr None"
    by (simp add: well_formed_find_entry[OF w] find_pos_absent[OF w False])
  have m1: "max_load_factor t1 = max_load_factor t" and b1: "bucket_count t1 = bucket_count t"
    by (simp_all add: t1_def)
  have ins: "insert_hm h t k v =
       (if fp_gt (load_factor t1) (max_load_factor t1)
         then rehash h t1 ((bucket_count t1 * 2) mod size_t_range)
         else Inr t1)"
    by (simp only: insert_hm_absent_unfold[OF fe well_formed_hash_func[OF w] jl] Let_def t1_def[symmetric])
  note l1 = lookup_after_insert_absent[OF w ae(1,2)]
  show ?thesis
  proof (cases "fp_gt (load_factor t1) (max_load_factor t1)")
    case False
    with ins have "insert_hm h t k v = Inr t1" by simp
    with False ae(1,3) m1 b1 b l1 show ?thesis by auto
  next
    case True
    have f1: "0 < max_load_factor t1" and ff1: "to_float (max_load_factor t1) = max_load_factor t1"
      and bb1: "bucket_count t1 \<le> 2 ^ 53"
      and q1: "double_quotient (entry_count t1) (max_load_factor t1) \<le> 2 ^ 52"
      using f ff b q by (simp_all only: m1 b1 ae(3))
    from grow[OF ae(1) f1 ff1 bb1 q1 True] obtain t' where
      t': "rehash h t1 ((bucket_count t1 * 2) mod size_t_range) = Inr t'" "well_formed h t'"
        "mset (entries t') = mset (entries t1)" "max_load_factor t' = max_load_factor t1"
        "entry_count t' = entry_count t1" "bucket_count t' \<le> 2 ^ 53"
        "\<not> fp_gt (load_factor t') (max_load_factor t')"
      by blast
    from ae(1) have "distinct (map key (entries t1))" by (simp add: well_formed_def)
    from lookup_mset_cong[OF this t'(3)] l1 have "lookup t' = (lookup t)(k \<mapsto> v)" by simp
    moreover from ins True t'(1) have "insert_hm h t k v = Inr t'" by simp
    ultimately show ?thesis using t'(2,4,5,6,7) m1 ae(3) by auto
  qed
qed

lemma set_max_load_factor_keeps_invariant:
  assumes w: "well_formed h t" and b: "bucket_count t \<le> 2 ^ 53"
    and f: "0 < ml" and ff: "to_float ml = ml"
    and q: "double_quotient (entry_count t) ml \<le> 2 ^ 52"
  shows "\<exists>t'. set_max_load_factor h t ml = Inr t' \<and> well_formed h t' \<and>
           \<not> fp_gt (load_factor t') (max_load_factor t') \<and>
           max_load_factor t' = ml \<and> bucket_count t' \<le> 2 ^ 53 \<and>
           entry_count t' = entry_count t \<and> lookup t' = lookup t"
proof -
  define t1 where "t1 = t\<lparr>max_load_factor := ml\<rparr>"
  have e1: "entries t1 = entries t" by (simp add: entries_def t1_def)
  have w1: "well_formed h t1" using w by (simp add: well_formed_def e1) (simp add: t1_def)
  have l1: "lookup t1 = lookup t" by (simp add: lookup_def e1)
  have m1: "max_load_factor t1 = ml" and b1: "bucket_count t1 = bucket_count t"
    and c1: "entry_count t1 = entry_count t"
    by (simp_all add: t1_def)
  have s: "set_max_load_factor h t ml =
     (if fp_gt (load_factor t1) (max_load_factor t1)
      then rehash h t1 ((bucket_count t1 * 2) mod size_t_range) else Inr t1)"
    by (simp add: set_max_load_factor_def Let_def t1_def)
  show ?thesis
  proof (cases "fp_gt (load_factor t1) (max_load_factor t1)")
    case False
    with s have "set_max_load_factor h t ml = Inr t1" by simp
    with False w1 l1 m1 b1 c1 b show ?thesis by auto
  next
    case True
    have f1: "0 < max_load_factor t1" and ff1: "to_float (max_load_factor t1) = max_load_factor t1"
      and bb1: "bucket_count t1 \<le> 2 ^ 53"
      and q1: "double_quotient (entry_count t1) (max_load_factor t1) \<le> 2 ^ 52"
      using f ff b q by (simp_all only: m1 b1 c1)
    from grow[OF w1 f1 ff1 bb1 q1 True] obtain t' where
      t': "rehash h t1 ((bucket_count t1 * 2) mod size_t_range) = Inr t'" "well_formed h t'"
        "mset (entries t') = mset (entries t1)" "max_load_factor t' = max_load_factor t1"
        "entry_count t' = entry_count t1" "bucket_count t' \<le> 2 ^ 53"
        "\<not> fp_gt (load_factor t') (max_load_factor t')"
      by blast
    from w1 have "distinct (map key (entries t1))" by (simp add: well_formed_def)
    from lookup_mset_cong[OF this t'(3)] l1 have "lookup t' = lookup t" by simp
    moreover from s True t'(1) have "set_max_load_factor h t ml = Inr t'" by simp
    ultimately show ?thesis using t'(2,4,5,6,7) m1 c1 by auto
  qed
qed

lemma run_ops_invariant:
  assumes "well_formed h t" and "\<not> fp_gt (load_factor t) (max_load_factor t)"
    and "0 < max_load_factor t" and "to_float (max_load_factor t) = max_load_factor t"
    and "bucket_count t \<le> 2 ^ 53" and "entry_count t + length ops < size_t_range"
    and "\<forall>ml. SetMaxLoadFactor ml \<in> set ops \<longrightarrow> 0 < ml \<and> to_float ml = ml"
    and "\<forall>v. v = max_load_factor t \<or> SetMaxLoadFactor v \<in> set ops \<longrightarrow>
           double_quotient (entry_count t + length ops) v \<le> 2 ^ 52"
  shows "\<exists>t'. run_ops h t ops = Inr t' \<and> well_formed h t' \<and>
           \<not> fp_gt (load_factor t') (max_load_factor t') \<and>
           lookup t' = stored_after (lookup t) ops \<and>
           max_load_factor t' = threshold_after (max_load_factor t) ops"
  using assms
proof (induction ops arbitrary: t)
  case Nil
  then show ?case by simp
next
  case (Cons x xs)
  note w = Cons.prems(1) and inv = Cons.prems(2) and f = Cons.prems(3) and ff = Cons.prems(4)
    and b = Cons.prems(5) and r = Cons.prems(6) and fl = Cons.prems(7) and qb = Cons.prems(8)
  have fl': "\<forall>ml. SetMaxLoadFactor ml \<in> set xs \<longrightarrow> 0 < ml \<and> to_float ml = ml" using fl by simp
  have bound: "double_quotient (m + length xs) v \<le> 2 ^ 52"
    if "m \<le> entry_count t + 1" and "v = max_load_factor t \<or> SetMaxLoadFactor v \<in> set (x # xs)" for m v
  proof -
    from that(2) f fl have vp: "0 < v" by auto
    have "m + length xs \<le> entry_count t + length (x # xs)" using that(1) by simp
    from double_quotient_mono[OF this vp] qb that(2) show ?thesis by force
  qed
  show ?case
  proof (cases x)
    case (Insert k v)
    have r1: "entry_count t + 1 < size_t_range" using r by simp
    have q1: "double_quotient (entry_count t + 1) (max_load_factor t) \<le> 2 ^ 52"
      using bound[of "entry_count t + 1" "max_load_factor t"] double_quotient_mono[OF _ f, of "entry_count t + 1" "entry_count t + 1 + length xs"]
      by simp
    from insert_keeps_invariant[OF w inv f ff b r1 q1, of k v] obtain t1 where
      t1: "insert_hm h t k v = Inr t1" "well_formed h t1"
        "\<not> fp_gt (load_factor t1) (max_load_factor t1)"
        "max_load_factor t1 = max_load_factor t" "bucket_count t1 \<le> 2 ^ 53"
        "entry_count t1 \<le> entry_count t + 1" "lookup t1 = (lookup t)(k \<mapsto> v)"
      by blast
    have f1: "0 < max_load_factor t1" and ff1: "to_float (max_load_factor t1) = max_load_factor t1"
      using f ff by (simp_all only: t1(4))
    have r': "entry_count t1 + length xs < size_t_range" using r t1(6) by simp
    have qb': "\<forall>v. v = max_load_factor t1 \<or> SetMaxLoadFactor v \<in> set xs \<longrightarrow>
           double_quotient (entry_count t1 + length xs) v \<le> 2 ^ 52"
      using bound[OF t1(6)] by (auto simp: t1(4))
    from Cons.IH[OF t1(2,3) f1 ff1 t1(5) r' fl' qb'] obtain t' where
      t': "run_ops h t1 xs = Inr t'" "well_formed h t'"
        "\<not> fp_gt (load_factor t') (max_load_factor t')"
        "lookup t' = stored_after (lookup t1) xs"
        "max_load_factor t' = threshold_after (max_load_factor t1) xs"
      by blast
    have a: "run_ops h t (x # xs) = Inr t'" by (simp add: Insert t1(1) t'(1))
    have b: "lookup t' = stored_after (lookup t) (x # xs)" by (simp add: Insert t'(4) t1(7))
    have c: "max_load_factor t' = threshold_after (max_load_factor t) (x # xs)"
      by (simp add: Insert t'(5) t1(4))
    from a t'(2,3) b c show ?thesis by blast
  next
    case (SetMaxLoadFactor ml)
    then have mlp: "0 < ml" and mlf: "to_float ml = ml" using fl by simp_all
    have q1: "double_quotient (entry_count t) ml \<le> 2 ^ 52"
    proof -
      have "double_quotient (entry_count t) ml \<le> double_quotient (entry_count t + length xs) ml"
        by (rule double_quotient_mono[OF _ mlp]) simp
      also have "\<dots> \<le> 2 ^ 52" using bound[of "entry_count t" ml] SetMaxLoadFactor by simp
      finally show ?thesis .
    qed
    from set_max_load_factor_keeps_invariant[OF w b mlp mlf q1] obtain t1 where
      t1: "set_max_load_factor h t ml = Inr t1" "well_formed h t1"
        "\<not> fp_gt (load_factor t1) (max_load_factor t1)"
        "max_load_factor t1 = ml" "bucket_count t1 \<le> 2 ^ 53"
        "entry_count t1 = entry_count t" "lookup t1 = lookup t"
      by blast
    have f1: "0 < max_load_factor t1" and ff1: "to_float (max_load_factor t1) = max_load_factor t1"
      using mlp mlf by (simp_all only: t1(4))
    have r': "entry_count t1 + length xs < size_t_range" using r t1(6) by simp
    have qb': "\<forall>v. v = max_load_factor t1 \<or> SetMaxLoadFactor v \<in> set xs \<longrightarrow>
           double_quotient (entry_count t1 + length xs) v \<le> 2 ^ 52"
      using bound[of "entry_count t1"] SetMaxLoadFactor by (auto simp: t1(4,6))
    from Cons.IH[OF t1(2,3) f1 ff1 t1(5) r' fl' qb'] obtain t' where
      t': "run_ops h t1 xs = Inr t'" "well_formed h t'"
        "\<not> fp_gt (load_factor t') (max_load_factor t')"
        "lookup t' = stored_after (lookup t1) xs"
        "max_load_factor t' = threshold_after (max_load_factor t1) xs"
      by blast
    have a: "run_ops h t (x # xs) = Inr t'" by (simp add: SetMaxLoadFactor t1(1) t'(1))
    have b: "lookup t' = stored_after (lookup t) (x # xs)" by (simp add: SetMaxLoadFactor t'(4) t1(7))
    have c: "max_load_factor t' = threshold_after (max_load_factor t) (x # xs)"
      by (simp add: SetMaxLoadFactor t'(5) t1(4))
    from a t'(2,3) b c show ?thesis by blast
  qed
qed

lemma constructed_invariant:
  assumes "HashMap_cap_mlf cap mlf = Inr t0 \<or> HashMap_cap cap = Inr t0 \<or> t0 = HashMap_default"
    and "0 < max_load_factor t0" and "bucket_count t0 < size_t_range"
  shows "well_formed h t0" and "\<not> fp_gt (load_factor t0) (max_load_factor t0)"
proof -
  have s: "0 < size_t_range" by (simp add: size_t_range_def)
  from assms(1) show "well_formed h t0"
  proof (elim disjE)
    assume "HashMap_cap_mlf cap mlf = Inr t0"
    with assms(3) s show ?thesis
      by (auto simp: HashMap_cap_mlf_def well_formed_iff entries_def split: if_splits)
  next
    assume "HashMap_cap cap = Inr t0"
    with assms(3) s show ?thesis
      by (auto simp: HashMap_cap_def well_formed_iff entries_def split: if_splits)
  next
    assume "t0 = HashMap_default"
    then show ?thesis by (simp add: well_formed_default)
  qed
  from assms(1) have "entry_count t0 = 0" and "0 < bucket_count t0"
    by (auto simp: HashMap_cap_mlf_def HashMap_cap_def HashMap_default_def split: if_splits)
  with assms(2) show "\<not> fp_gt (load_factor t0) (max_load_factor t0)"
    by (simp add: load_factor_def)
qed

text \<open>
  Claim C1. Start from a table made by the default, the capacity or the
  capacity-and-load-factor constructor, or from any well-formed table in which the
  test \<open>load_factor() > max_load_factor\<close> fails, with a positive \<open>float\<close> threshold,
  and make any sequence of \<open>insert\<close> and \<open>set_max_load_factor(v)\<close> calls with
  positive \<open>float\<close>s \<open>v\<close>. Let the table start with at most \<open>2 ^ 53\<close> buckets, let
  the initial number of entries plus the number of calls be a value of \<open>size_t\<close>,
  and let that number, divided in \<open>double\<close> by each threshold in use, be at most
  \<open>2 ^ 52\<close>. Then after every call (that is, for every prefix of the sequence)
  all calls so far have returned, the table is well formed, and:
    \<^item> the load factor as \<open>load_factor()\<close> computes it, the \<open>double\<close> quotient
      \<open>entry_count / bucket_count\<close> narrowed to \<open>float\<close>, does not exceed
      \<open>max_load_factor\<close>;
    \<^item> no mutation was rejected: the table stands for the map with every inserted
      pair stored (a later insert of a key overriding an earlier one), and the
      threshold is the one the last \<open>set_max_load_factor\<close> asked for.
  Moreover \<open>set_max_load_factor\<close> never rejects a value, on any table: whenever it
  returns, the threshold is the requested one.
\<close>

theorem load_factor_invariant:
  assumes "HashMap_cap_mlf cap mlf = Inr t0 \<or> HashMap_cap cap = Inr t0 \<or> t0 = HashMap_default \<or>
           (well_formed h t0 \<and> \<not> fp_gt (load_factor t0) (max_load_factor t0))"
    and "0 < max_load_factor t0" and "to_float (max_load_factor t0) = max_load_factor t0"
    and "\<forall>ml. SetMaxLoadFactor ml \<in> set ops \<longrightarrow> 0 < ml \<and> to_float ml = ml"
    and "bucket_count t0 \<le> 2 ^ 53" and "entry_count t0 + length ops < size_t_range"
    and "\<forall>v. v = max_load_factor t0 \<or> SetMaxLoadFactor v \<in> set ops \<longrightarrow>
           double_quotient (entry_count t0 + length ops) v \<le> 2 ^ 52"
  shows "(\<forall>n \<le> length ops.
            \<exists>t. run_ops h t0 (take n ops) = Inr t \<and> well_formed h t \<and>
              \<not> fp_gt (load_factor t) (max_load_factor t) \<and>
              lookup t = stored_after (lookup t0) (take n ops) \<and>
              max_load_factor t = threshold_after (max_load_factor t0) (take n ops)) \<and>
         (\<forall>t ml t'. set_max_load_factor h t ml = Inr t' \<longrightarrow> max_load_factor t' = ml)"
proof (intro conjI allI impI)
  fix n
  assume n: "n \<le> length ops"
  have "(2::nat) ^ 53 < size_t_range" by (simp add: size_t_range_def)
  with assms(5) have br: "bucket_count t0 < size_t_range" by linarith
  have "well_formed h t0 \<and> \<not> fp_gt (load_factor t0) (max_load_factor t0)"
  proof (cases "HashMap_cap_mlf cap mlf = Inr t0 \<or> HashMap_cap cap = Inr t0 \<or> t0 = HashMap_default")
    case True
    from constructed_invariant[OF True assms(2) br] show ?thesis by simp
  next
    case False
    with assms(1) show ?thesis by blast
  qed
  then have w: "well_formed h t0" and inv: "\<not> fp_gt (load_factor t0) (max_load_factor t0)"
    by simp_all
  have sub: "set (take n ops) \<subseteq> set ops" by (rule set_take_subset)
  have len: "length (take n ops) \<le> length ops" by simp
  have r: "entry_count t0 + length (take n ops) < size_t_range" using assms(6) len by linarith
  have fl: "\<forall>ml. SetMaxLoadFactor ml \<in> set (take n ops) \<longrightarrow> 0 < ml \<and> to_float ml = ml"
    using assms(4) sub by blast
  have qb: "\<forall>v. v = max_load_factor t0 \<or> SetMaxLoadFactor v \<in> set (take n ops) \<longrightarrow>
           double_quotient (entry_count t0 + length (take n ops)) v \<le> 2 ^ 52"
  proof (intro allI impI)
    fix v
    assume v: "v = max_load_factor t0 \<or> SetMaxLoadFactor v \<in> set (take n ops)"
    with sub have v': "v = max_load_factor t0 \<or> SetMaxLoadFactor v \<in> set ops" by blast
    with assms(2,4) have vp: "0 < v" by auto
    have "entry_count t0 + length (take n ops) \<le> entry_count t0 + length ops" using len by linarith
    from double_quotient_mono[OF this vp] assms(7) v'
    show "double_quotient (entry_count t0 + length (take n ops)) v \<le> 2 ^ 52" by force
  qed
  from run_ops_invariant[OF w inv assms(2,3,5) r fl qb]
  show "\<exists>t. run_ops h t0 (take n ops) = Inr t \<and> well_formed h t \<and>
              \<not> fp_gt (load_factor t) (max_load_factor t) \<and>
              lookup t = stored_after (lookup t0) (take n ops) \<and>
              max_load_factor t = threshold_after (max_load_factor t0) (take n ops)" .
next
  fix t ml t'
  assume "set_max_load_factor h t ml = Inr t'"
  then show "max_load_factor t' = ml" by (rule set_max_load_factor_accepts)
qed

theorem load_factor_invariant_witness:
  "\<exists>t. run_ops nat_hash
         \<lparr>buckets = [[], []], bucket_count = 2, entry_count = 0, max_load_factor = 3 / 4\<rparr>
         [Insert (1::nat) (10::nat), Insert 2 20, SetMaxLoadFactor (1 / 4), Insert 3 30] = Inr t \<and>
       well_formed nat_hash t \<and> \<not> fp_gt (load_factor t) (max_load_factor t) \<and>
       lookup t = [1 \<mapsto> 10, 2 \<mapsto> 20, 3 \<mapsto> 30] \<and> max_load_factor t = 1 / 4"
proof -
  let ?t0 = "\<lparr>buckets = [[], []], bucket_count = 2, entry_count = 0, max_load_factor = 3 / 4\<rparr> :: (nat, nat) HashMap"
  let ?ops = "[Insert (1::nat) (10::nat), Insert 2 20, SetMaxLoadFactor (1 / 4), Insert 3 30]"
  have c: "HashMap_cap_mlf 2 (3 / 4) = Inr ?t0 \<or> HashMap_cap 2 = Inr ?t0 \<or> ?t0 = HashMap_default \<or>
           (well_formed nat_hash ?t0 \<and> \<not> fp_gt (load_factor ?t0) (max_load_factor ?t0))"
    by (simp add: HashMap_cap_mlf_def numeral_2_eq_2)
  have mp: "0 < max_load_factor ?t0" by simp
  have f34: "to_float (3 / 4) = 3 / 4" using dyadic_is_float[of 3 2] by simp
  have f14: "to_float (1 / 4) = 1 / 4" using dyadic_is_float[of 1 2] by simp
  have fl0: "to_float (max_load_factor ?t0) = max_load_factor ?t0" using f34 by simp
  have p: "\<forall>ml. SetMaxLoadFactor ml \<in> set ?ops \<longrightarrow> 0 < ml \<and> to_float ml = ml"
  proof (intro allI impI)
    fix ml :: rat
    assume "SetMaxLoadFactor ml \<in> set ?ops"
    then have ml: "ml = 1 / 4" by simp
    show "0 < ml \<and> to_float ml = ml" unfolding ml using f14 by simp
  qed
  have b: "bucket_count ?t0 \<le> 2 ^ 53" by simp
  have r: "entry_count ?t0 + length ?ops < size_t_range" by (simp add: size_t_range_def)
  have l: "entry_count ?t0 + length ?ops = 4" by simp
  have "double_quotient 4 (3 / 4) \<le> of_nat 6" by (rule double_quotient_le_nat) simp_all
  then have q34: "double_quotient 4 (3 / 4) \<le> 2 ^ 52" by simp
  have "double_quotient 4 (1 / 4) \<le> of_nat 16" by (rule double_quotient_le_nat) simp_all
  then have q14: "double_quotient 4 (1 / 4) \<le> 2 ^ 52" by simp
  have q: "\<forall>v. v = max_load_factor ?t0 \<or> SetMaxLoadFactor v \<in> set ?ops \<longrightarrow>
           double_quotient (entry_count ?t0 + length ?ops) v \<le> 2 ^ 52"
  proof (intro allI impI)
    fix v :: rat
    assume "v = max_load_factor ?t0 \<or> SetMaxLoadFactor v \<in> set ?ops"
    then have "v = 3 / 4 \<or> v = 1 / 4" by auto
    then show "double_quotient (entry_count ?t0 + length ?ops) v \<le> 2 ^ 52"
      unfolding l using q34 q14 by blast
  qed
  note th = load_factor_invariant[OF c mp fl0 p b r q]
  have len: "(4::nat) \<le> length ?ops" by simp
  have tk: "take 4 ?ops = ?ops" by simp
  from th[THEN conjunct1, rule_format, OF len] obtain t where
    t: "run_ops nat_hash ?t0 (take 4 ?ops) = Inr t" "well_formed nat_hash t"
      "\<not> fp_gt (load_factor t) (max_load_factor t)"
      "lookup t = stored_after (lookup ?t0) (take 4 ?ops)"
      "max_load_factor t = threshold_after (max_load_factor ?t0) (take 4 ?ops)"
    by blast
  have r: "run_ops nat_hash ?t0 ?ops = Inr t" using t(1) by (simp only: tk)
  have l: "lookup t = [1 \<mapsto> 10, 2 \<mapsto> 20, 3 \<mapsto> 30]"
    using t(4) by (simp add: lookup_def entries_def)
  have m: "max_load_factor t = 1 / 4" using t(5) by simp
  from r t(2,3) l m show ?thesis by blast
qed

text \<open>
  Three runs on which the claim as worded fails. With capacity 10 and the
  threshold \<open>0.7f\<close>, seven inserts of new keys leave 10 buckets: \<open>7.0 / 10\<close> narrowed
  to \<open>float\<close> is \<open>0.7f\<close>, so the test \<open>load_factor() > max_load_factor\<close> fails, while
  \<open>7 / 10\<close> is larger than \<open>0.7f = 11744051 / 2 ^ 24\<close>. With capacity 1 and the
  threshold \<open>2 ^ -70\<close>, the first insert calls \<open>rehash\<close>, whose quotient \<open>2 ^ 70\<close>
  is not a value of \<open>size_t\<close>. The copy of a table with two entries in one bucket
  (threshold \<open>2.0f\<close>) has the threshold \<open>0.75f\<close>; an insert that overwrites a value
  makes no growth test, and the load factor \<open>2\<close> stays above the threshold.
\<close>

lemma run_ops_snoc:
  "run_ops h t (xs @ [x]) = (case run_ops h t xs of Inl er \<Rightarrow> Inl er | Inr t' \<Rightarrow> apply_op h t' x)"
  by (induction xs arbitrary: t) (auto split: sum.splits)

lemma float07_is_float: "to_float (11744051 / 16777216) = 11744051 / 16777216"
  using dyadic_is_float[of 11744051 24] by simp

lemma float07_load_factor: "to_float (double_quotient 7 (to_double 10)) = 11744051 / 16777216"
proof -
  have "fround 53 (7 / 10) = of_int 6305039478318694 * pow2 (- 1 - int 53 + 1)"
    by (rule fround_eval) (simp_all add: pow2_def)
  then have q: "double_quotient 7 (to_double 10) = 6305039478318694 / 9007199254740992"
    using nat_is_double[of 10] nat_is_double[of 7] by (simp add: double_quotient_def to_double_def pow2_def)
  have "fround 24 (6305039478318694 / 9007199254740992) = of_int 11744051 * pow2 (- 1 - int 24 + 1)"
    by (rule fround_eval) (simp_all add: pow2_def)
  then show ?thesis by (simp add: q to_float_def pow2_def)
qed

lemma float07_no_growth:
  assumes "k \<le> 7"
  shows "\<not> 11744051 / 16777216 < to_float (double_quotient k (to_double 10))"
proof -
  have t: "to_double 10 = 10" using nat_is_double[of 10] by simp
  have "double_quotient k (to_double 10) \<le> double_quotient 7 (to_double 10)"
    using assms by (intro double_quotient_mono) (simp_all add: t)
  moreover have "0 \<le> double_quotient k (to_double 10)" by (rule double_quotient_nonneg) (simp add: t)
  ultimately have "to_float (double_quotient k (to_double 10)) \<le> to_float (double_quotient 7 (to_double 10))"
    by (intro to_float_mono)
  then show ?thesis by (simp add: float07_load_factor)
qed

lemma float07_run:
  "n \<le> 7 \<Longrightarrow>
     \<exists>t. run_ops nat_hash float07_table (map (\<lambda>i. Insert i (10 * i)) [0..<n]) = Inr t \<and>
       well_formed nat_hash t \<and> key ` set (entries t) = {0..<n} \<and> entry_count t = n \<and>
       bucket_count t = 10 \<and> max_load_factor t = 11744051 / 16777216"
proof (induction n)
  case 0
  have "well_formed nat_hash float07_table"
    by (simp add: float07_table_def well_formed_iff entries_def size_t_range_def)
  then show ?case by (simp add: float07_table_def entries_def)
next
  case (Suc n)
  then obtain t where t: "run_ops nat_hash float07_table (map (\<lambda>i. Insert i (10 * i)) [0..<n]) = Inr t"
    "well_formed nat_hash t" "key ` set (entries t) = {0..<n}" "entry_count t = n"
    "bucket_count t = 10" "max_load_factor t = 11744051 / 16777216"
    by auto
  have ab: "n \<notin> key ` set (entries t)" by (simp add: t(3))
  have mp: "0 < max_load_factor t" by (simp add: t(6))
  have r: "entry_count t + 1 < size_t_range" using Suc.prems by (simp add: t(4) size_t_range_def)
  have ng: "\<not> max_load_factor t < to_float (double_quotient (entry_count t + 1) (to_double (of_nat (bucket_count t))))"
    using float07_no_growth[of "n + 1"] Suc.prems by (simp add: t(4,5,6))
  then have c: "max_load_factor t < to_float (double_quotient (entry_count t + 1) (to_double (of_nat (bucket_count t)))) \<longrightarrow>
            \<lceil>double_quotient (entry_count t + 1) (max_load_factor t)\<rceil> < int size_t_range"
    by simp
  from insert_absent[OF t(2) ab mp r c, of "10 * n"] ng obtain t' where
    t': "insert_hm nat_hash t n (10 * n) = Inr t'" "well_formed nat_hash t'"
      "mset (entries t') = add_mset (Entry n (10 * n)) (mset (entries t))"
      "entry_count t' = entry_count t + 1" "max_load_factor t' = max_load_factor t"
      "bucket_count t' = bucket_count t"
    by auto
  have "set (entries t') = insert (Entry n (10 * n)) (set (entries t))"
    using t'(3) by (metis set_mset_add_mset_insert set_mset_mset)
  then have k: "key ` set (entries t') = {0..<Suc n}" using t(3) by auto
  have "run_ops nat_hash float07_table (map (\<lambda>i. Insert i (10 * i)) [0..<Suc n]) = Inr t'"
    by (simp add: run_ops_snoc t(1) t'(1))
  with t'(2,4,5,6) k t(4,5,6) show ?case by simp
qed

lemma tiny_quotient: "double_quotient 1 (1 / 1180591620717411303424) = 1180591620717411303424"
proof -
  have "fround 53 (of_int 1 * pow2 70) = of_int 1 * pow2 70" by (rule fround_id) simp_all
  then show ?thesis
    using nat_is_double[of 1] by (simp add: double_quotient_def to_double_def pow2_def)
qed

theorem load_factor_invariant_counterexample:
  "HashMap_cap_mlf 10 (11744051 / 16777216) = Inr float07_table \<and>
   to_float (11744051 / 16777216) = 11744051 / 16777216 \<and>
   map_sum id bucket_count (run_ops nat_hash float07_table seven_inserts) = Inr 10 \<and>
   map_sum id entry_count (run_ops nat_hash float07_table seven_inserts) = Inr 7 \<and>
   map_sum id exact_load_ok (run_ops nat_hash float07_table seven_inserts) = Inr False \<and>
   HashMap_cap_mlf 1 (1 / 2 ^ 70) = Inr tiny_table \<and>
   to_float (1 / 2 ^ 70) = 1 / 2 ^ 70 \<and>
   run_ops nat_hash tiny_table [Insert 0 0] = Inl CastOutOfRange \<and>
   HashMap_copy dense_table = Inr dense_copy \<and>
   map_sum id over_threshold (insert_hm nat_hash dense_copy 0 5) = Inr True \<and>
   map_sum id exact_load_ok (insert_hm nat_hash dense_copy 0 5) = Inr False"
proof -
  have s: "seven_inserts = map (\<lambda>i. Insert i (10 * i)) [0..<7]"
    by (simp add: seven_inserts_def upt_rec)
  from float07_run[of 7] obtain t where t: "run_ops nat_hash float07_table seven_inserts = Inr t"
    "entry_count t = 7" "bucket_count t = 10" "max_load_factor t = 11744051 / 16777216"
    unfolding s by auto
  have a: "map_sum id bucket_count (run_ops nat_hash float07_table seven_inserts) = Inr 10"
    "map_sum id entry_count (run_ops nat_hash float07_table seven_inserts) = Inr 7"
    "map_sum id exact_load_ok (run_ops nat_hash float07_table seven_inserts) = Inr False"
    by (simp_all add: t exact_load_ok_def)
  have b: "HashMap_cap_mlf 10 (11744051 / 16777216) = Inr float07_table"
    by (simp add: HashMap_cap_mlf_def float07_table_def)
  have c: "HashMap_cap_mlf 1 (1 / 2 ^ 70) = Inr tiny_table"
    by (simp add: HashMap_cap_mlf_def tiny_table_def)
  have d: "to_float (1 / 2 ^ 70) = 1 / 2 ^ 70" using dyadic_is_float[of 1 70] by simp
  have u1: "to_float (double_quotient (Suc 0) 1) = 1"
    using unit_load_factor nat_is_double[of 1] by simp
  have tq: "double_quotient (Suc 0) (1 / 1180591620717411303424) = 1180591620717411303424"
    using tiny_quotient by simp
  have e: "run_ops nat_hash tiny_table [Insert 0 0] = Inl CastOutOfRange"
    using nat_is_double[of 1]
    by (simp add: tiny_table_def insert_hm_def find_entry_def hash_func_def bucket_at_def nat_hash_def
        load_factor_def u1 rehash_def min_required_def tq size_t_range_def)
  have f: "HashMap_copy dense_table = Inr dense_copy"
    by (simp add: HashMap_copy_def dense_table_def dense_copy_def numeral_2_eq_2)
  have i: "insert_hm nat_hash dense_copy 0 5 =
             Inr \<lparr>buckets = [[Entry 0 5, Entry 1 10]], bucket_count = 1, entry_count = 2,
                  max_load_factor = 3 / 4\<rparr>"
    by (simp add: insert_hm_def find_entry_def hash_func_def bucket_at_def nat_hash_def dense_copy_def)
  have "to_float (double_quotient 2 (to_double 1)) = 2"
    using nat_is_double[of 1] nat_is_double[of 2] dyadic_is_float[of 2 0] dyadic_is_double[of 2 0]
    by (simp add: double_quotient_def)
  then have g: "map_sum id over_threshold (insert_hm nat_hash dense_copy 0 5) = Inr True"
    "map_sum id exact_load_ok (insert_hm nat_hash dense_copy 0 5) = Inr False"
    by (simp_all add: i over_threshold_def exact_load_ok_def load_factor_def)
  from a b c d e f g float07_is_float show ?thesis by simp
qed

section \<open>Cursors\<close>

lemma skip_empty_result:
  assumes "length (buckets t) = bucket_count t"
  shows "\<exists>nb. skip_empty t s = Inr nb \<and> s \<le> nb \<and> (s \<le> bucket_count t \<longrightarrow> nb \<le> bucket_count t) \<and>
           (\<forall>j. s \<le> j \<and> j < nb \<longrightarrow> buckets t ! j = []) \<and>
           (nb < bucket_count t \<longrightarrow> buckets t ! nb \<noteq> [])"
  using assms
proof (induction t s rule: skip_empty.induct)
  case (1 t i)
  show ?case
  proof (cases "i < bucket_count t \<and> buckets t ! i = []")
    case False
    then have "skip_empty t i = Inr i" using "1.prems" by (simp add: skip_empty.simps[of t i])
    with False show ?thesis by auto
  next
    case True
    then have il: "i < length (buckets t)" using "1.prems" by simp
    from True have e: "skip_empty t i = skip_empty t (Suc i)"
      using "1.prems" by (simp add: skip_empty.simps[of t i])
    from "1.IH"[OF _ il _ "1.prems"] True obtain nb where
      nb: "skip_empty t (Suc i) = Inr nb" "Suc i \<le> nb"
        "Suc i \<le> bucket_count t \<longrightarrow> nb \<le> bucket_count t"
        "\<forall>j. Suc i \<le> j \<and> j < nb \<longrightarrow> buckets t ! j = []"
        "nb < bucket_count t \<longrightarrow> buckets t ! nb \<noteq> []"
      by auto
    have "\<forall>j. i \<le> j \<and> j < nb \<longrightarrow> buckets t ! j = []"
    proof (intro allI impI)
      fix j assume "i \<le> j \<and> j < nb"
      then show "buckets t ! j = []" using nb(4) True by (cases "j = i") auto
    qed
    with nb e True show ?thesis by auto
  qed
qed

lemma incr_within_bucket:
  assumes len: "length (buckets t) = bucket_count t" and n: "n < bucket_count t"
    and r: "length (buckets t ! n) \<le> size_t_range"
    and ij: "i + j < length (buckets t ! n)"
  shows "incr_times t j \<lparr>map_ptr = Some this, bucket_idx = n, entry_idx = i\<rparr>
           = Inr \<lparr>map_ptr = Some this, bucket_idx = n, entry_idx = i + j\<rparr>"
  using ij
proof (induction j arbitrary: i)
  case 0
  then show ?case by simp
next
  case (Suc j)
  from Suc.prems r have "i + 1 < size_t_range" by simp
  then have m: "(i + 1) mod size_t_range = i + 1" by simp
  have "incr t \<lparr>map_ptr = Some this, bucket_idx = n, entry_idx = i\<rparr>
      = Inr \<lparr>map_ptr = Some this, bucket_idx = n, entry_idx = i + 1\<rparr>"
    using len n Suc.prems by (simp add: incr_def bucket_at_def Let_def m del: One_nat_def) 
  moreover have "incr_times t j \<lparr>map_ptr = Some this, bucket_idx = n, entry_idx = i + 1\<rparr>
      = Inr \<lparr>map_ptr = Some this, bucket_idx = n, entry_idx = i + 1 + j\<rparr>"
    by (rule Suc.IH) (use Suc.prems in simp)
  ultimately show ?case by simp
qed

lemma length_bucket_le:
  "n < length bs \<Longrightarrow> length (bs ! n) \<le> length (concat bs)"
proof (induction bs arbitrary: n)
  case Nil
  then show ?case by simp
next
  case (Cons b bs)
  show ?case
  proof (cases n)
    case 0
    then show ?thesis by simp
  next
    case (Suc m)
    with Cons.prems have "m < length bs" by simp
    from Cons.IH[OF this] Suc show ?thesis by simp
  qed
qed

lemma well_formed_bucket_length:
  assumes "well_formed h t" and "n < bucket_count t"
  shows "length (buckets t ! n) < size_t_range"
proof -
  from assms have "length (buckets t ! n) \<le> length (entries t)"
    unfolding entries_def by (intro length_bucket_le) (simp add: well_formed_def)
  with assms(1) show ?thesis by (simp add: well_formed_def)
qed

text \<open>
  Claim C6, as amended. For a well-formed table and a bucket index
  \<open>n < bucket_count\<close>: \<open>begin(n)\<close> is the table's \<open>end()\<close> exactly when bucket \<open>n\<close> is
  empty, and the cursor \<open>(n, 0)\<close> otherwise; \<open>end(n)\<close> is the cursor
  \<open>(n, size of bucket n)\<close>; and for every \<open>i\<close> below the size of bucket \<open>n\<close>, \<open>i\<close>
  increments of \<open>begin(n)\<close> give the cursor \<open>(n, i)\<close>, which dereferences to the
  \<open>i\<close>-th entry of the bucket. So the first cursors of the iteration visit exactly
  the entries of bucket \<open>n\<close> in their current order.
\<close>

theorem bucket_cursors:
  assumes "well_formed h t" and "n < bucket_count t"
  shows "(begin_bucket this t n = Inr (end_it this t) \<longleftrightarrow> buckets t ! n = []) \<and>
         (buckets t ! n \<noteq> [] \<longrightarrow>
            begin_bucket this t n = Inr \<lparr>map_ptr = Some this, bucket_idx = n, entry_idx = 0\<rparr>) \<and>
         end_bucket this t n =
           Inr \<lparr>map_ptr = Some this, bucket_idx = n, entry_idx = length (buckets t ! n)\<rparr> \<and>
         (\<forall>i<length (buckets t ! n).
            \<exists>b0. begin_bucket this t n = Inr b0 \<and>
              incr_times t i b0 = Inr \<lparr>map_ptr = Some this, bucket_idx = n, entry_idx = i\<rparr> \<and>
              deref t \<lparr>map_ptr = Some this, bucket_idx = n, entry_idx = i\<rparr> = Inr (buckets t ! n ! i))"
proof (intro conjI allI impI)
  from assms have len: "length (buckets t) = bucket_count t" by (simp add: well_formed_def)
  with assms(2) have ba: "bucket_at t n = Inr (buckets t ! n)" by (simp add: bucket_at_def)
  show "begin_bucket this t n = Inr (end_it this t) \<longleftrightarrow> buckets t ! n = []"
    using assms(2) by (auto simp: begin_bucket_def ba end_it_def)
  show "begin_bucket this t n = Inr \<lparr>map_ptr = Some this, bucket_idx = n, entry_idx = 0\<rparr>"
    if "buckets t ! n \<noteq> []"
    using assms(2) that by (simp add: begin_bucket_def ba)
  show "end_bucket this t n =
           Inr \<lparr>map_ptr = Some this, bucket_idx = n, entry_idx = length (buckets t ! n)\<rparr>"
    using assms(2) by (simp add: end_bucket_def ba)
  fix i assume i: "i < length (buckets t ! n)"
  then have ne: "buckets t ! n \<noteq> []" by auto
  have b0: "begin_bucket this t n = Inr \<lparr>map_ptr = Some this, bucket_idx = n, entry_idx = 0\<rparr>"
    using assms(2) ne by (simp add: begin_bucket_def ba)
  from well_formed_bucket_length[OF assms] have r: "length (buckets t ! n) \<le> size_t_range" by simp
  from i have "0 + i < length (buckets t ! n)" by simp
  from incr_within_bucket[OF len assms(2) r this, of this]
  have it: "incr_times t i \<lparr>map_ptr = Some this, bucket_idx = n, entry_idx = 0\<rparr>
      = Inr \<lparr>map_ptr = Some this, bucket_idx = n, entry_idx = i\<rparr>"
    by simp
  have d: "deref t \<lparr>map_ptr = Some this, bucket_idx = n, entry_idx = i\<rparr> = Inr (buckets t ! n ! i)"
    using assms(2) i by (simp add: deref_def ba)
  from b0 it d
  show "\<exists>b0. begin_bucket this t n = Inr b0 \<and>
              incr_times t i b0 = Inr \<lparr>map_ptr = Some this, bucket_idx = n, entry_idx = i\<rparr> \<and>
              deref t \<lparr>map_ptr = Some this, bucket_idx = n, entry_idx = i\<rparr> = Inr (buckets t ! n ! i)"
    by blast
qed

theorem bucket_cursors_witness:
  "well_formed nat_hash sample \<and> 1 < bucket_count sample \<and>
   begin_bucket 7 sample 1 = Inr \<lparr>map_ptr = Some 7, bucket_idx = 1, entry_idx = 0\<rparr> \<and>
   end_bucket 7 sample 1 = Inr \<lparr>map_ptr = Some 7, bucket_idx = 1, entry_idx = 2\<rparr> \<and>
   incr_times sample 1 \<lparr>map_ptr = Some 7, bucket_idx = 1, entry_idx = 0\<rparr>
     = Inr \<lparr>map_ptr = Some 7, bucket_idx = 1, entry_idx = 1\<rparr> \<and>
   deref sample \<lparr>map_ptr = Some 7, bucket_idx = 1, entry_idx = 1\<rparr> = Inr (Entry 5 50)"
proof -
  have n: "1 < bucket_count sample" by (simp add: sample_def)
  have b: "buckets sample ! 1 = [Entry 1 10, Entry 5 50]" by (simp add: sample_def)
  from bucket_cursors[OF well_formed_sample n, of 7] b well_formed_sample n show ?thesis
    by (fastforce simp: b)
qed

text \<open>
  The claim as stated fails on the sample table. Bucket 2 is empty, yet \<open>begin(2)\<close>
  (which is \<open>end()\<close>) differs from \<open>end(2)\<close>. Bucket 1 holds two entries; two
  increments of \<open>begin(1)\<close> lead to \<open>end()\<close>, where \<open>operator++\<close> stays, and \<open>end(1)\<close>
  is none of the cursors on the way.
\<close>

theorem bucket_cursors_counterexample:
  "buckets sample ! 2 = [] \<and> begin_bucket 7 sample 2 \<noteq> end_bucket 7 sample 2 \<and>
   begin_bucket 7 sample 1 = Inr \<lparr>map_ptr = Some 7, bucket_idx = 1, entry_idx = 0\<rparr> \<and>
   incr sample \<lparr>map_ptr = Some 7, bucket_idx = 1, entry_idx = 0\<rparr>
     = Inr \<lparr>map_ptr = Some 7, bucket_idx = 1, entry_idx = 1\<rparr> \<and>
   incr sample \<lparr>map_ptr = Some 7, bucket_idx = 1, entry_idx = 1\<rparr> = Inr (end_it 7 sample) \<and>
   incr sample (end_it 7 sample) = Inr (end_it 7 sample) \<and>
   end_it 7 sample = \<lparr>map_ptr = Some 7, bucket_idx = 4, entry_idx = 0\<rparr> \<and>
   end_bucket 7 sample 1 = Inr \<lparr>map_ptr = Some 7, bucket_idx = 1, entry_idx = 2\<rparr>"
  by (simp add: sample_def begin_bucket_def end_bucket_def bucket_at_def end_it_def incr_def
      size_t_range_def skip_empty.simps)

text \<open>
  What \<open>operator++\<close> does after the last entry of a bucket, for every well-formed
  table: a cursor that started at \<open>begin(n)\<close> is either inside bucket \<open>n\<close> or in a
  later bucket (or at \<open>end()\<close>), so it is never \<open>end(n)\<close>.
\<close>

lemma incr_stays_ahead:
  assumes w: "well_formed h t" and n: "n < bucket_count t"
    and a: "map_ptr it = Some this"
    and inv: "(bucket_idx it = n \<and> entry_idx it < length (buckets t ! n)) \<or> n < bucket_idx it"
  shows "\<exists>it'. incr t it = Inr it' \<and> map_ptr it' = Some this \<and>
           ((bucket_idx it' = n \<and> entry_idx it' < length (buckets t ! n)) \<or> n < bucket_idx it')"
proof (cases "bucket_idx it \<ge> bucket_count t")
  case True
  then have "incr t it = Inr it" by (simp add: incr_def)
  with a inv show ?thesis by simp
next
  case False
  from w have len: "length (buckets t) = bucket_count t" by (simp add: well_formed_def)
  from False have bl: "bucket_idx it < bucket_count t" by simp
  then have ba: "bucket_at t (bucket_idx it) = Inr (buckets t ! bucket_idx it)"
    using len by (simp add: bucket_at_def)
  let ?e = "(entry_idx it + 1) mod size_t_range"
  show ?thesis
  proof (cases "?e < length (buckets t ! bucket_idx it)")
    case True
    then have i: "incr t it = Inr (it\<lparr>entry_idx := ?e\<rparr>)"
      using a bl by (simp add: incr_def ba Let_def del: One_nat_def)
    from inv True have "(bucket_idx it = n \<and> ?e < length (buckets t ! n)) \<or> n < bucket_idx it"
      by auto
    with i a show ?thesis by simp
  next
    case False
    from skip_empty_result[OF len, of "bucket_idx it + 1"] obtain nb where
      nb: "skip_empty t (bucket_idx it + 1) = Inr nb" "bucket_idx it + 1 \<le> nb"
      by blast
    from False nb(1) have i: "incr t it = Inr (it\<lparr>bucket_idx := nb, entry_idx := 0\<rparr>)"
      using a bl by (simp add: incr_def ba Let_def del: One_nat_def)
    from inv nb(2) have "n < nb" by auto
    with i a show ?thesis by simp
  qed
qed

lemma increments_miss_bucket_end:
  assumes w: "well_formed h t" and n: "n < bucket_count t"
    and b0: "begin_bucket this t n = Inr b0" and e: "end_bucket this t n = Inr e"
  shows "incr_times t j b0 \<noteq> Inr e"
proof -
  from w have len: "length (buckets t) = bucket_count t" by (simp add: well_formed_def)
  with n have ba: "bucket_at t n = Inr (buckets t ! n)" by (simp add: bucket_at_def)
  have e': "bucket_idx e = n" "entry_idx e = length (buckets t ! n)"
    using e n by (auto simp: end_bucket_def ba)
  have start: "map_ptr b0 = Some this \<and>
      ((bucket_idx b0 = n \<and> entry_idx b0 < length (buckets t ! n)) \<or> n < bucket_idx b0)"
    using b0 n by (auto simp: begin_bucket_def ba end_it_def split: if_splits)
  have run: "\<exists>it'. incr_times t j it = Inr it' \<and> map_ptr it' = Some this \<and>
           ((bucket_idx it' = n \<and> entry_idx it' < length (buckets t ! n)) \<or> n < bucket_idx it')"
    if "map_ptr it = Some this \<and>
      ((bucket_idx it = n \<and> entry_idx it < length (buckets t ! n)) \<or> n < bucket_idx it)"
    for it
    using that
  proof (induction j arbitrary: it)
    case 0
    then show ?case by simp
  next
    case (Suc j)
    then have a: "map_ptr it = Some this"
      and inv: "(bucket_idx it = n \<and> entry_idx it < length (buckets t ! n)) \<or> n < bucket_idx it"
      by simp_all
    from incr_stays_ahead[OF w n a inv] obtain it1 where
      it1: "incr t it = Inr it1" "map_ptr it1 = Some this \<and>
           ((bucket_idx it1 = n \<and> entry_idx it1 < length (buckets t ! n)) \<or> n < bucket_idx it1)"
      by blast
    from Suc.IH[OF it1(2)] it1(1) show ?case by simp
  qed
  from run[OF start] e' show ?thesis by auto
qed

section \<open>Erasing at a cursor\<close>

lemma slot_in_entries:
  assumes "j < length (buckets t)" and "i < length (buckets t ! j)"
  shows "buckets t ! j ! i \<in> set (entries t)"
proof -
  from assms have "buckets t ! j ! i \<in> set (buckets t ! j)" "buckets t ! j \<in> set (buckets t)"
    by simp_all
  then show ?thesis by (auto simp: entries_def)
qed

lemma erase_it_unfold:
  assumes "map_ptr pos = Some this" and "bucket_idx pos < bucket_count t"
    and "bucket_at t (bucket_idx pos) = Inr b" and "entry_idx pos < length b"
  shows "erase_it this t pos =
     (let i = entry_idx pos;
          b' = swap_remove b i;
          t' = t\<lparr>buckets := (buckets t)[bucket_idx pos := b'],
                 entry_count := (entry_count t + size_t_range - 1) mod size_t_range\<rparr>
      in if i < length b'
         then Inr (t', \<lparr>map_ptr = Some this, bucket_idx = bucket_idx pos, entry_idx = i\<rparr>)
         else (case skip_empty t' ((bucket_idx pos + 1) mod size_t_range) of
                 Inl er \<Rightarrow> Inl er
               | Inr nb \<Rightarrow>
                   if nb < bucket_count t'
                   then Inr (t', \<lparr>map_ptr = Some this, bucket_idx = nb, entry_idx = 0\<rparr>)
                   else Inr (t', end_it this t')))"
  using assms by (simp add: erase_it_def Let_def)

lemma erase_it_correct:
  assumes w: "well_formed h t" and p: "map_ptr pos = Some this" and b: "bucket_idx pos < bucket_count t"
    and i: "entry_idx pos < length (buckets t ! bucket_idx pos)"
  shows "\<exists>t' it. erase_it this t pos = Inr (t', it) \<and> well_formed h t' \<and>
           mset (entries t) = add_mset (buckets t ! bucket_idx pos ! entry_idx pos) (mset (entries t')) \<and>
           entry_count t' + 1 = entry_count t \<and> bucket_count t' = bucket_count t \<and>
           contains h t' (key (buckets t ! bucket_idx pos ! entry_idx pos)) = Inr False \<and>
           map_ptr it = Some this \<and>
           (entry_idx pos < length (buckets t' ! bucket_idx pos) \<longrightarrow>
              bucket_idx it = bucket_idx pos \<and> entry_idx it = entry_idx pos) \<and>
           (\<not> entry_idx pos < length (buckets t' ! bucket_idx pos) \<longrightarrow>
              entry_idx it = 0 \<and> bucket_idx pos < bucket_idx it \<and> bucket_idx it \<le> bucket_count t' \<and>
              (\<forall>j. bucket_idx pos < j \<and> j < bucket_idx it \<longrightarrow> buckets t' ! j = []) \<and>
              (bucket_idx it < bucket_count t' \<longrightarrow> buckets t' ! bucket_idx it \<noteq> [])) \<and>
           (it = end_it this t' \<or> (\<exists>e'. deref t' it = Inr e' \<and> e' \<in> set (entries t')))"
proof -
  let ?b = "bucket_idx pos" and ?i = "entry_idx pos"
  let ?e = "buckets t ! ?b ! ?i"
  define t' where "t' = t\<lparr>buckets := (buckets t)[?b := swap_remove (buckets t ! ?b) ?i],
                          entry_count := (entry_count t + size_t_range - 1) mod size_t_range\<rparr>"
  note rs = remove_slot[OF w b i, folded t'_def]
  from w have len: "length (buckets t) = bucket_count t" and bcr: "bucket_count t < size_t_range"
    by (simp_all add: well_formed_def)
  from rs(1) have len': "length (buckets t') = bucket_count t'" by (simp add: well_formed_def)
  have bc': "bucket_count t' = bucket_count t" by (simp add: t'_def)
  have ba: "bucket_at t ?b = Inr (buckets t ! ?b)" using b len by (simp add: bucket_at_def)
  have b': "buckets t' ! ?b = swap_remove (buckets t ! ?b) ?i" using b len by (simp add: t'_def)
  have ba': "bucket_at t' ?b = Inr (buckets t' ! ?b)" using b len' bc' by (simp add: bucket_at_def)
  from rs(4) have "lookup t' (key ?e) = None" by (simp add: lookup_None_iff)
  then have c: "contains h t' (key ?e) = Inr False" by (simp add: contains_lookup[OF rs(1)])
  have m: "(?b + 1) mod size_t_range = ?b + 1" using b bcr by simp
  have er: "erase_it this t pos =
     (if ?i < length (buckets t' ! ?b)
      then Inr (t', \<lparr>map_ptr = Some this, bucket_idx = ?b, entry_idx = ?i\<rparr>)
      else (case skip_empty t' (?b + 1) of
              Inl er \<Rightarrow> Inl er
            | Inr nb \<Rightarrow>
                if nb < bucket_count t'
                then Inr (t', \<lparr>map_ptr = Some this, bucket_idx = nb, entry_idx = 0\<rparr>)
                else Inr (t', end_it this t')))"
  proof -
    have "erase_it this t pos =
     (if ?i < length (swap_remove (buckets t ! ?b) ?i)
      then Inr (t', \<lparr>map_ptr = Some this, bucket_idx = ?b, entry_idx = ?i\<rparr>)
      else (case skip_empty t' (?b + 1) of
              Inl er \<Rightarrow> Inl er
            | Inr nb \<Rightarrow>
                if nb < bucket_count t'
                then Inr (t', \<lparr>map_ptr = Some this, bucket_idx = nb, entry_idx = 0\<rparr>)
                else Inr (t', end_it this t')))"
      by (simp only: erase_it_unfold[OF p b ba i] Let_def t'_def[symmetric] m)
    then show ?thesis by (simp only: b')
  qed
  show ?thesis
  proof (cases "?i < length (buckets t' ! ?b)")
    case True
    let ?it = "\<lparr>map_ptr = Some this, bucket_idx = ?b, entry_idx = ?i\<rparr>"
    from True er have e: "erase_it this t pos = Inr (t', ?it)" by simp
    have "deref t' ?it = Inr (buckets t' ! ?b ! ?i)"
      using True b bc' by (simp add: deref_def ba')
    moreover have "buckets t' ! ?b ! ?i \<in> set (entries t')"
      using True b bc' len' by (intro slot_in_entries) simp_all
    ultimately have "\<exists>e'. deref t' ?it = Inr e' \<and> e' \<in> set (entries t')" by blast
    with e rs c bc' True show ?thesis
      by (intro exI[of _ t'] exI[of _ ?it]) simp
  next
    case False
    from skip_empty_result[OF len', of "?b + 1"] obtain nb where
      nb: "skip_empty t' (?b + 1) = Inr nb" "?b + 1 \<le> nb"
        "?b + 1 \<le> bucket_count t' \<longrightarrow> nb \<le> bucket_count t'"
        "\<forall>j. ?b + 1 \<le> j \<and> j < nb \<longrightarrow> buckets t' ! j = []"
        "nb < bucket_count t' \<longrightarrow> buckets t' ! nb \<noteq> []"
      by blast
    let ?it = "\<lparr>map_ptr = Some this, bucket_idx = nb, entry_idx = 0\<rparr>"
    from nb(3) b bc' have nble: "nb \<le> bucket_count t'" by simp
    have "end_it this t' = ?it" if "\<not> nb < bucket_count t'"
      using that nble by (simp add: end_it_def)
    with False er nb(1) have e: "erase_it this t pos = Inr (t', ?it)" by simp
    have d: "?it = end_it this t' \<or> (\<exists>e'. deref t' ?it = Inr e' \<and> e' \<in> set (entries t'))"
    proof (cases "nb < bucket_count t'")
      case False
      with nble show ?thesis by (simp add: end_it_def)
    next
      case True
      with nb(5) have ne: "0 < length (buckets t' ! nb)" by simp
      have "deref t' ?it = Inr (buckets t' ! nb ! 0)"
        using True ne len' by (simp add: deref_def bucket_at_def)
      moreover have "buckets t' ! nb ! 0 \<in> set (entries t')"
        using True ne len' by (intro slot_in_entries) simp_all
      ultimately show ?thesis by blast
    qed
    have gaps: "\<forall>j. ?b < j \<and> j < nb \<longrightarrow> buckets t' ! j = []" using nb(4) by simp
    from nb(2) have "?b < nb" by simp
    with e rs c bc' False nble gaps nb(5) d show ?thesis
      by (intro exI[of _ t'] exI[of _ ?it]) simp
  qed
qed

lemma erase_scenario:
  assumes w: "well_formed h s" and m: "mset (entries s) = {#Entry a va, Entry b vb#}" and ab: "a \<noteq> b"
  shows "\<exists>pos t' it. find_hm this h s a = Inr pos \<and> erase_it this s pos = Inr (t', it) \<and>
           (deref t' it = Inr (Entry b vb) \<or> it = end_it this t') \<and>
           contains h t' a = Inr False \<and> contains h t' b = Inr True"
proof -
  let ?j = "h a mod bucket_count s"
  have se: "set (entries s) = {Entry a va, Entry b vb}"
    using m by (metis set_mset_mset set_mset_add_mset_insert set_mset_single)
  then have pa: "a \<in> key ` set (entries s)" by force
  from find_pos_present[OF w pa] obtain i where fp: "find_pos (buckets s ! ?j) a = Some i" by blast
  from find_pos_Some[OF fp] have il: "i < length (buckets s ! ?j)" and ke: "key (buckets s ! ?j ! i) = a"
    by simp_all
  from w have jb: "?j < bucket_count s" and len: "length (buckets s) = bucket_count s"
    by (simp_all add: well_formed_def)
  define pos where "pos = \<lparr>map_ptr = Some this, bucket_idx = ?j, entry_idx = i\<rparr>"
  have f: "find_hm this h s a = Inr pos"
    by (simp add: find_hm_def well_formed_hash_func[OF w] well_formed_bucket_at[OF w jb] fp pos_def)
  have p1: "map_ptr pos = Some this" and p2: "bucket_idx pos < bucket_count s"
    and p3: "entry_idx pos < length (buckets s ! bucket_idx pos)"
    using jb il by (simp_all add: pos_def)
  have e: "buckets s ! bucket_idx pos ! entry_idx pos = Entry a va"
  proof -
    have "buckets s ! ?j ! i \<in> set (entries s)" using jb len il by (intro slot_in_entries) simp_all
    with se ke ab show ?thesis by (auto simp: pos_def)
  qed
  from erase_it_correct[OF w p1 p2 p3] obtain t' it where
    r: "erase_it this s pos = Inr (t', it)" "well_formed h t'"
      "mset (entries s) = add_mset (buckets s ! bucket_idx pos ! entry_idx pos) (mset (entries t'))"
      "contains h t' (key (buckets s ! bucket_idx pos ! entry_idx pos)) = Inr False"
      "it = end_it this t' \<or> (\<exists>e'. deref t' it = Inr e' \<and> e' \<in> set (entries t'))"
    by blast
  from r(3) m e have m': "mset (entries t') = {#Entry b vb#}" by simp
  then have s': "set (entries t') = {Entry b vb}" by (metis set_mset_mset set_mset_single)
  from r(5) s' have d: "deref t' it = Inr (Entry b vb) \<or> it = end_it this t'" by auto
  from r(4) e have ca: "contains h t' a = Inr False" by simp
  from r(2) have "distinct (map key (entries t'))" by (simp add: well_formed_def)
  from lookup_Some_iff[OF this, of b vb] s' have "lookup t' b = Some vb" by simp
  then have cb: "contains h t' b = Inr True" by (simp add: contains_lookup[OF r(2)])
  from f r(1) d ca cb show ?thesis by blast
qed

text \<open>
  Claim C7. Let \<open>pos\<close> be a cursor of a well-formed table that designates an
  existing entry \<open>e\<close> (its \<open>map\<close> is this table, its bucket index is below
  \<open>bucket_count\<close> and its entry index below the size of that bucket). Then
  \<open>erase(pos)\<close> returns a well-formed table that has lost exactly \<open>e\<close>:
  \<open>entry_count\<close> is one less and the key of \<open>e\<close> is no longer contained. The cursor
  it returns is the first cursor of the resulting table that is not before the
  slot of \<open>pos\<close> in bucket-major order: the same slot if the bucket still has an
  entry there, otherwise entry 0 of the next non-empty bucket, otherwise \<open>end()\<close>.
  It is \<open>end()\<close> or dereferences to an entry of the resulting table. For a
  well-formed table holding exactly \<open>"a" -> 1\<close> and \<open>"b" -> 2\<close> (any hash function,
  any bucket count), erasing at \<open>find("a")\<close> returns a cursor that designates
  \<open>"b" -> 2\<close> or is \<open>end()\<close>; then \<open>contains("a")\<close> is false and \<open>contains("b")\<close> true.
\<close>

theorem erase_cursor:
  assumes "well_formed h t" and "map_ptr pos = Some this" and "bucket_idx pos < bucket_count t"
    and "entry_idx pos < length (buckets t ! bucket_idx pos)"
  shows "(\<exists>t' it. erase_it this t pos = Inr (t', it) \<and> well_formed h t' \<and>
           mset (entries t) = add_mset (buckets t ! bucket_idx pos ! entry_idx pos) (mset (entries t')) \<and>
           entry_count t' + 1 = entry_count t \<and> bucket_count t' = bucket_count t \<and>
           contains h t' (key (buckets t ! bucket_idx pos ! entry_idx pos)) = Inr False \<and>
           map_ptr it = Some this \<and>
           (entry_idx pos < length (buckets t' ! bucket_idx pos) \<longrightarrow>
              bucket_idx it = bucket_idx pos \<and> entry_idx it = entry_idx pos) \<and>
           (\<not> entry_idx pos < length (buckets t' ! bucket_idx pos) \<longrightarrow>
              entry_idx it = 0 \<and> bucket_idx pos < bucket_idx it \<and> bucket_idx it \<le> bucket_count t' \<and>
              (\<forall>j. bucket_idx pos < j \<and> j < bucket_idx it \<longrightarrow> buckets t' ! j = []) \<and>
              (bucket_idx it < bucket_count t' \<longrightarrow> buckets t' ! bucket_idx it \<noteq> [])) \<and>
           (it = end_it this t' \<or> (\<exists>e'. deref t' it = Inr e' \<and> e' \<in> set (entries t')))) \<and>
         (well_formed h' s \<and> mset (entries s) = {#Entry ''a'' (1::int), Entry ''b'' 2#} \<longrightarrow>
            (\<exists>pos' t' it. find_hm this' h' s ''a'' = Inr pos' \<and> erase_it this' s pos' = Inr (t', it) \<and>
               (deref t' it = Inr (Entry ''b'' 2) \<or> it = end_it this' t') \<and>
               contains h' t' ''a'' = Inr False \<and> contains h' t' ''b'' = Inr True))"
proof (rule conjI)
  show "\<exists>t' it. erase_it this t pos = Inr (t', it) \<and> well_formed h t' \<and>
           mset (entries t) = add_mset (buckets t ! bucket_idx pos ! entry_idx pos) (mset (entries t')) \<and>
           entry_count t' + 1 = entry_count t \<and> bucket_count t' = bucket_count t \<and>
           contains h t' (key (buckets t ! bucket_idx pos ! entry_idx pos)) = Inr False \<and>
           map_ptr it = Some this \<and>
           (entry_idx pos < length (buckets t' ! bucket_idx pos) \<longrightarrow>
              bucket_idx it = bucket_idx pos \<and> entry_idx it = entry_idx pos) \<and>
           (\<not> entry_idx pos < length (buckets t' ! bucket_idx pos) \<longrightarrow>
              entry_idx it = 0 \<and> bucket_idx pos < bucket_idx it \<and> bucket_idx it \<le> bucket_count t' \<and>
              (\<forall>j. bucket_idx pos < j \<and> j < bucket_idx it \<longrightarrow> buckets t' ! j = []) \<and>
              (bucket_idx it < bucket_count t' \<longrightarrow> buckets t' ! bucket_idx it \<noteq> [])) \<and>
           (it = end_it this t' \<or> (\<exists>e'. deref t' it = Inr e' \<and> e' \<in> set (entries t')))"
    by (rule erase_it_correct[OF assms])
  show "well_formed h' s \<and> mset (entries s) = {#Entry ''a'' (1::int), Entry ''b'' 2#} \<longrightarrow>
            (\<exists>pos' t' it. find_hm this' h' s ''a'' = Inr pos' \<and> erase_it this' s pos' = Inr (t', it) \<and>
               (deref t' it = Inr (Entry ''b'' 2) \<or> it = end_it this' t') \<and>
               contains h' t' ''a'' = Inr False \<and> contains h' t' ''b'' = Inr True)"
  proof
    assume a: "well_formed h' s \<and> mset (entries s) = {#Entry ''a'' (1::int), Entry ''b'' 2#}"
    then have "well_formed h' s" and "mset (entries s) = {#Entry ''a'' (1::int), Entry ''b'' 2#}"
      by simp_all
    then show "\<exists>pos' t' it. find_hm this' h' s ''a'' = Inr pos' \<and> erase_it this' s pos' = Inr (t', it) \<and>
               (deref t' it = Inr (Entry ''b'' 2) \<or> it = end_it this' t') \<and>
               contains h' t' ''a'' = Inr False \<and> contains h' t' ''b'' = Inr True"
      by (rule erase_scenario) simp
  qed
qed

lemma well_formed_ab_table: "well_formed (\<lambda>k. 0) ab_table"
  by (simp add: well_formed_def ab_table_def entries_def size_t_range_def)

theorem erase_cursor_witness:
  "well_formed (\<lambda>k. 0) ab_table \<and>
   map_ptr \<lparr>map_ptr = Some 7, bucket_idx = 0, entry_idx = 0\<rparr> = Some 7 \<and>
   bucket_idx \<lparr>map_ptr = Some 7, bucket_idx = 0, entry_idx = 0\<rparr> < bucket_count ab_table \<and>
   entry_idx \<lparr>map_ptr = Some 7, bucket_idx = 0, entry_idx = 0\<rparr>
     < length (buckets ab_table ! bucket_idx \<lparr>map_ptr = Some 7, bucket_idx = 0, entry_idx = 0\<rparr>) \<and>
   erase_it 7 ab_table \<lparr>map_ptr = Some 7, bucket_idx = 0, entry_idx = 0\<rparr> =
     Inr (\<lparr>buckets = [[Entry ''b'' 2]], bucket_count = 1, entry_count = 1, max_load_factor = 2\<rparr>,
          \<lparr>map_ptr = Some 7, bucket_idx = 0, entry_idx = 0\<rparr>) \<and>
   well_formed (\<lambda>k. 0) \<lparr>buckets = [[Entry ''b'' (2::int)]], bucket_count = 1, entry_count = 1,
                   max_load_factor = 2\<rparr> \<and>
   contains (\<lambda>k. 0) \<lparr>buckets = [[Entry ''b'' (2::int)]], bucket_count = 1, entry_count = 1,
                         max_load_factor = 2\<rparr> ''a'' = Inr False"
proof -
  let ?pos = "\<lparr>map_ptr = Some (7::nat), bucket_idx = 0, entry_idx = 0\<rparr>"
  let ?t' = "\<lparr>buckets = [[Entry ''b'' (2::int)]], bucket_count = 1, entry_count = 1,
              max_load_factor = 2\<rparr>"
  have p: "map_ptr ?pos = Some 7" "bucket_idx ?pos < bucket_count ab_table"
    "entry_idx ?pos < length (buckets ab_table ! bucket_idx ?pos)"
    by (simp_all add: ab_table_def)
  have e: "erase_it 7 ab_table ?pos = Inr (?t', ?pos)"
    by (simp add: erase_it_def bucket_at_def ab_table_def swap_remove_def Let_def size_t_range_def)
  have k: "key (buckets ab_table ! bucket_idx ?pos ! entry_idx ?pos) = ''a''"
    by (simp add: ab_table_def)
  from erase_cursor[OF well_formed_ab_table p(1) p(2) p(3)] obtain t' it where
    r: "erase_it 7 ab_table ?pos = Inr (t', it)" "well_formed (\<lambda>k. 0) t'"
      "contains (\<lambda>k. 0) t' (key (buckets ab_table ! bucket_idx ?pos ! entry_idx ?pos)) = Inr False"
    by blast
  from r(1) e have "t' = ?t'" by simp
  with r(2,3) k have "well_formed (\<lambda>k. 0) ?t'" "contains (\<lambda>k. 0) ?t' ''a'' = Inr False" by simp_all
  with well_formed_ab_table p e show ?thesis by (intro conjI)
qed

end
